theory Spec2Isabelle
  imports Main "HOL-Library.Word"
begin

unbundle bit_operations_syntax

section \<open>The BGZIP data chunk reader of \<open>cpp/src/io/text/bgzip_data_chunk_source.cu\<close>\<close>

text \<open>
  A shallow embedding of \<open>bgzip_data_chunk_reader\<close> and its nested
  \<open>decompression_blocks\<close>.  Bytes are \<open>8 word\<close>; \<open>uint16_t\<close>, \<open>uint32_t\<close> and
  \<open>uint64_t\<close> are words of that width; \<open>int\<close> is \<open>int\<close> (all values stay far below
  \<open>2 ^ 31\<close>); \<open>std::size_t\<close> is \<open>nat\<close>, with the wrap-around of a subtraction written
  out in \<open>size_sub\<close> (additions of sizes are taken not to reach \<open>2 ^ 64\<close>).
  Every \<open>CUDF_EXPECTS\<close>, \<open>CUDF_FAIL\<close> and stream failure is a value of \<open>error\<close>.
\<close>

subsection \<open>Errors\<close>

datatype error =
    Malformed_header            \<comment> \<open>"malformed BGZIP header"\<close>
  | Invalid_extra_length        \<comment> \<open>"invalid extra field length"\<close>
  | Malformed_subfield          \<comment> \<open>"malformed BGZIP extra subfield"\<close>
  | Missing_subfield            \<comment> \<open>"missing BGZIP size extra subfield"\<close>
  | Local_offset_out_of_bounds  \<comment> \<open>"local part of virtual offset is out of bounds"\<close>
  | Out_of_bounds               \<comment> \<open>"out of bounds"\<close>
  | Io_failure                  \<comment> \<open>the stream's failbit, which throws\<close>
  | Alloc_failure               \<comment> \<open>a host vector asked to grow beyond its maximal size\<close>

fun is_format_error :: "error \<Rightarrow> bool" where
  "is_format_error Malformed_header = True"
| "is_format_error Invalid_extra_length = True"
| "is_format_error Malformed_subfield = True"
| "is_format_error Missing_subfield = True"
| "is_format_error _ = False"

fun is_bounds_error :: "error \<Rightarrow> bool" where
  "is_bounds_error Local_offset_out_of_bounds = True"
| "is_bounds_error Out_of_bounds = True"
| "is_bounds_error _ = False"

subsection \<open>\<open>read_int\<close>\<close>

type_synonym byte = "8 word"

text \<open>
  \<open>read_int\<close> copies \<open>sizeof(IntType)\<close> bytes over the object representation of an
  integer (\<open>std::memcpy\<close>).  The value of that integer depends on the byte order of the
  host, which is a parameter of the model.
\<close>

datatype endianness = Little_endian | Big_endian

fun le_value :: "byte list \<Rightarrow> nat" where
  "le_value [] = 0"
| "le_value (b # bs) = unat b + 256 * le_value bs"

definition object_value :: "endianness \<Rightarrow> byte list \<Rightarrow> nat" where
  "object_value host bs =
     (case host of Little_endian \<Rightarrow> le_value bs | Big_endian \<Rightarrow> le_value (rev bs))"

definition read_int :: "endianness \<Rightarrow> byte list \<Rightarrow> 'a::len word" where
  "read_int host data =
     word_of_nat (object_value host (take (LENGTH('a) div 8) data))"

subsection \<open>The input stream\<close>

text \<open>
  The \<open>std::ifstream\<close> behind \<open>_data_stream\<close>, with \<open>exceptions(failbit)\<close> set: the
  bytes of the file, the get position and the eofbit.  Setting the failbit throws, so it
  is an \<open>Io_failure\<close>.  A read or a peek on a stream whose eofbit is set fails; a read of
  more bytes than are left fails; a peek at the end sets the eofbit only; a seek clears
  the eofbit and may go beyond the end of the file, but not before its start.
\<close>

record istream =
  content :: "byte list"
  gpos :: nat
  eofbit :: bool

definition stream_read :: "nat \<Rightarrow> istream \<Rightarrow> error + (byte list \<times> istream)" where
  "stream_read n s =
     (if eofbit s then Inl Io_failure
      else if n \<le> length (content s) - gpos s
      then Inr (take n (drop (gpos s) (content s)), s\<lparr>gpos := gpos s + n\<rparr>)
      else Inl Io_failure)"

definition stream_peek :: "istream \<Rightarrow> error + istream" where
  "stream_peek s =
     (if eofbit s then Inl Io_failure
      else if gpos s < length (content s) then Inr s
      else Inr (s\<lparr>eofbit := True\<rparr>))"

definition stream_seekg_cur :: "int \<Rightarrow> istream \<Rightarrow> error + istream" where
  "stream_seekg_cur off s =
     (if int (gpos s) + off < 0 then Inl Io_failure
      else Inr (s\<lparr>gpos := nat (int (gpos s) + off), eofbit := False\<rparr>))"

subsection \<open>Header and footer\<close>

record bgzip_header =
  block_size :: int
  extra_length :: int

definition data_size :: "bgzip_header \<Rightarrow> int" where
  "data_size h = block_size h - extra_length h - 20"

definition expected_header :: "byte list" where
  "expected_header = [31, 139, 8, 4]"

text \<open>
  The loop over the extra subfields of \<open>read_header\<close>.  \<open>xlen\<close> is \<open>extra_length\<close>;
  \<open>extra_offset\<close> is a \<open>uint16_t\<close> and wraps; \<open>remaining_size\<close> is an \<open>int\<close>.  The bytes
  returned by a read stand for the part of \<open>buffer\<close> that the read overwrites, which is
  the only part read afterwards.
\<close>

function read_extra_subfields ::
  "endianness \<Rightarrow> 16 word \<Rightarrow> 16 word \<Rightarrow> istream \<Rightarrow> error + (bgzip_header \<times> istream)" where
  "read_extra_subfields host xlen extra_offset s =
     (if extra_offset < xlen then
        (if uint xlen - uint extra_offset < 4 then Inl Invalid_extra_length
         else
           case stream_read 4 s of
             Inl e \<Rightarrow> Inl e
           | Inr (buffer, s1) \<Rightarrow>
               if buffer ! 0 = 66 \<and> buffer ! 1 = 67 then
                 (if (read_int host (drop 2 buffer) :: 16 word) \<noteq> 2 then Inl Malformed_subfield
                  else
                    case stream_read 2 s1 of
                      Inl e \<Rightarrow> Inl e
                    | Inr (buffer2, s2) \<Rightarrow>
                        (case stream_seekg_cur (uint xlen - uint extra_offset - 6) s2 of
                           Inl e \<Rightarrow> Inl e
                         | Inr s3 \<Rightarrow>
                             Inr (\<lparr>block_size = uint (read_int host buffer2 :: 16 word) + 1,
                                   extra_length = uint xlen\<rparr>, s3)))
               else
                 (case stream_seekg_cur (uint (read_int host (drop 2 buffer) :: 16 word)) s1 of
                    Inl e \<Rightarrow> Inl e
                  | Inr s2 \<Rightarrow>
                      read_extra_subfields host xlen
                        (extra_offset + 4 + read_int host (drop 2 buffer)) s2))
      else Inl Missing_subfield)"
  by pat_completeness auto

definition read_header :: "endianness \<Rightarrow> istream \<Rightarrow> error + (bgzip_header \<times> istream)" where
  "read_header host s =
     (case stream_read 12 s of
        Inl e \<Rightarrow> Inl e
      | Inr (buffer, s1) \<Rightarrow>
          if take 4 buffer \<noteq> expected_header then Inl Malformed_header
          else read_extra_subfields host (read_int host (drop 10 buffer)) 0 s1)"

record bgzip_footer =
  decompressed_size_f :: "32 word"

definition read_footer :: "endianness \<Rightarrow> istream \<Rightarrow> error + (bgzip_footer \<times> istream)" where
  "read_footer host s =
     (case stream_read 8 s of
        Inl e \<Rightarrow> Inl e
      | Inr (buffer, s1) \<Rightarrow> Inr (\<lparr>decompressed_size_f = read_int host (drop 4 buffer)\<rparr>, s1))"

subsection \<open>Block groups: \<open>decompression_blocks\<close>\<close>

text \<open>
  The subtraction of two \<open>std::size_t\<close> values wraps around modulo \<open>2 ^ 64\<close>.
\<close>

definition size_sub :: "nat \<Rightarrow> nat \<Rightarrow> nat" where
  "size_sub a b = (if b \<le> a then a - b else a + 2 ^ 64 - b)"

text \<open>
  The host tables and the device buffers of a group.  A device span is a pair of an
  offset into a device buffer and a length.  The event, which orders device work and
  carries no data, is left out.
\<close>

record decompression_blocks =
  h_compressed_blocks :: "byte list"
  h_compressed_offsets :: "nat list"
  h_decompressed_offsets :: "nat list"
  d_compressed_blocks :: "byte list"
  d_decompressed_blocks :: "byte list"
  d_compressed_offsets :: "nat list"
  d_decompressed_offsets :: "nat list"
  d_compressed_spans :: "(nat \<times> nat) list"
  d_decompressed_spans :: "(nat \<times> nat) list"
  d_decompression_results :: "nat list"
  compressed_size_with_headers :: nat
  max_decompressed_size :: nat
  available_decompressed_size :: nat
  read_pos :: nat
  is_decompressed :: bool

text \<open>The constructor \<open>decompression_blocks(init_stream)\<close>.\<close>

definition new_decompression_blocks :: decompression_blocks where
  "new_decompression_blocks =
     \<lparr>h_compressed_blocks = [], h_compressed_offsets = [0], h_decompressed_offsets = [0],
      d_compressed_blocks = [], d_decompressed_blocks = [], d_compressed_offsets = [],
      d_decompressed_offsets = [], d_compressed_spans = [], d_decompressed_spans = [],
      d_decompression_results = [], compressed_size_with_headers = 0,
      max_decompressed_size = 0, available_decompressed_size = 0, read_pos = 0,
      is_decompressed = False\<rparr>"

definition num_blocks :: "decompression_blocks \<Rightarrow> nat" where
  "num_blocks g = size_sub (length (h_compressed_offsets g)) 1"

definition compressed_size :: "decompression_blocks \<Rightarrow> nat" where
  "compressed_size g = last (h_compressed_offsets g)"

definition decompressed_size :: "decompression_blocks \<Rightarrow> nat" where
  "decompressed_size g = last (h_decompressed_offsets g)"

definition remaining_size :: "decompression_blocks \<Rightarrow> nat" where
  "remaining_size g = size_sub (available_decompressed_size g) (read_pos g)"

text \<open>
  \<open>resize(n)\<close> of a vector keeps the first \<open>n\<close> elements and fills up with
  value-initialised ones.
\<close>

definition resize :: "nat \<Rightarrow> 'a::zero list \<Rightarrow> 'a list" where
  "resize n xs = take n xs @ replicate (n - length xs) 0"

text \<open>
  Writing \<open>bs\<close> into a buffer at offset \<open>off\<close>; the buffer keeps its size (a write
  beyond its end, undefined in the source, is cut off).
\<close>

definition write_at :: "'a list \<Rightarrow> nat \<Rightarrow> 'a list \<Rightarrow> 'a list" where
  "write_at buf off bs = take (length buf) (take off buf @ bs @ drop (off + length bs) buf)"

text \<open>
  \<open>cudaMemcpyAsync(dst + doff, src + soff, n)\<close> between device buffers.  Source bytes
  beyond the end of \<open>src\<close> (undefined in the source) are not copied.
\<close>

definition device_copy :: "byte list \<Rightarrow> nat \<Rightarrow> byte list \<Rightarrow> nat \<Rightarrow> nat \<Rightarrow> byte list" where
  "device_copy dst doff src soff n = write_at dst doff (take n (drop soff src))"

text \<open>
  \<open>bgzip_nvcomp_transform_functor\<close>: the spans of block \<open>i\<close> from the offset tables.
\<close>

definition bgzip_nvcomp_transform_functor ::
  "nat \<times> nat \<times> nat \<times> nat \<Rightarrow> (nat \<times> nat) \<times> (nat \<times> nat)" where
  "bgzip_nvcomp_transform_functor t =
     (case t of (compressed_begin, compressed_end_t, decompressed_begin, decompressed_end) \<Rightarrow>
        ((compressed_begin, size_sub compressed_end_t compressed_begin),
         (decompressed_begin, size_sub decompressed_end decompressed_begin)))"

text \<open>
  The decompression backend (\<open>batched_decompress\<close> or \<open>gpuinflate\<close>) is outside this
  file: \<open>inflate\<close> maps the DEFLATE payload of one block to its output.  One launch
  writes, for every block, the output of the block's compressed span to the start of its
  decompressed span, and records the number of bytes written.
\<close>

definition span_bytes :: "byte list \<Rightarrow> nat \<times> nat \<Rightarrow> byte list" where
  "span_bytes buf sp = take (snd sp) (drop (fst sp) buf)"

definition backend_launch ::
  "(byte list \<Rightarrow> byte list) \<Rightarrow> byte list \<Rightarrow> ((nat \<times> nat) \<times> (nat \<times> nat)) list \<Rightarrow>
   byte list \<Rightarrow> byte list" where
  "backend_launch inflate compressed spans out =
     fold (\<lambda>(csp, dsp) buf.
             write_at buf (fst dsp) (take (snd dsp) (inflate (span_bytes compressed csp))))
          spans out"

text \<open>
  \<open>decompress\<close> returns the group and the number of backend launches it issued.
\<close>

definition decompress ::
  "(byte list \<Rightarrow> byte list) \<Rightarrow> decompression_blocks \<Rightarrow> decompression_blocks \<times> nat" where
  "decompress inflate g =
     (if is_decompressed g then (g, 0)
      else
        let d_cb = h_compressed_blocks g;
            d_co = h_compressed_offsets g;
            d_do = h_decompressed_offsets g;
            d_db = resize (decompressed_size g) (d_decompressed_blocks g);
            spans = map (\<lambda>i. bgzip_nvcomp_transform_functor
                                (d_co ! i, d_co ! (i + 1), d_do ! i, d_do ! (i + 1)))
                        [0..<num_blocks g];
            launched = (0 < decompressed_size g);
            d_db' = (if launched then backend_launch inflate d_cb spans d_db else d_db);
            results = (if launched
                       then map (\<lambda>(csp, dsp).
                                   min (snd dsp) (length (inflate (span_bytes d_cb csp)))) spans
                       else resize (num_blocks g) (d_decompression_results g))
        in (g\<lparr>d_compressed_blocks := d_cb, d_compressed_offsets := d_co,
               d_decompressed_offsets := d_do, d_decompressed_blocks := d_db',
               d_compressed_spans := map fst spans, d_decompressed_spans := map snd spans,
               d_decompression_results := results, is_decompressed := True\<rparr>,
            if launched then 1 else 0))"

definition reset :: "decompression_blocks \<Rightarrow> decompression_blocks" where
  "reset g =
     g\<lparr>h_compressed_blocks := resize 0 (h_compressed_blocks g),
       h_compressed_offsets := resize 1 (h_compressed_offsets g),
       h_decompressed_offsets := resize 1 (h_decompressed_offsets g),
       d_compressed_blocks := resize 0 (d_compressed_blocks g),
       d_decompressed_blocks := resize 0 (d_decompressed_blocks g),
       d_compressed_offsets := resize 0 (d_compressed_offsets g),
       d_decompressed_offsets := resize 0 (d_decompressed_offsets g),
       d_compressed_spans := [],
       d_decompressed_spans := [],
       d_decompression_results := resize 0 (d_decompression_results g),
       compressed_size_with_headers := 0,
       max_decompressed_size := 0,
       available_decompressed_size := 0,
       read_pos := 0,
       is_decompressed := False\<rparr>"

text \<open>
  \<open>read_block\<close>: \<open>header.data_size()\<close> is an \<open>int\<close>.  A negative one is converted to
  \<open>std::size_t\<close> in the new size of \<open>h_compressed_blocks\<close>, which either exceeds the
  maximal size of a vector or shrinks the vector; in the second case the read of a
  negative number of bytes extracts nothing and sets the failbit.
\<close>

definition read_block ::
  "decompression_blocks \<Rightarrow> bgzip_header \<Rightarrow> istream \<Rightarrow> error + (decompression_blocks \<times> istream)" where
  "read_block g header s =
     (if data_size header < 0 then
        (if int (length (h_compressed_blocks g)) + data_size header < 0 then Inl Alloc_failure
         else Inl Io_failure)
      else
        case stream_read (nat (data_size header)) s of
          Inl e \<Rightarrow> Inl e
        | Inr (bytes, s1) \<Rightarrow>
            Inr (g\<lparr>h_compressed_blocks :=
                     write_at (resize (length (h_compressed_blocks g) + nat (data_size header))
                                      (h_compressed_blocks g))
                              (compressed_size g) bytes\<rparr>, s1))"

text \<open>
  \<open>add_block_offsets\<close>: the \<open>int\<close> \<open>data_size\<close> is converted to \<open>std::size_t\<close> before
  the addition, so that adding a negative one subtracts with wrap-around.
\<close>

definition add_block_offsets ::
  "decompression_blocks \<Rightarrow> bgzip_header \<Rightarrow> bgzip_footer \<Rightarrow> decompression_blocks" where
  "add_block_offsets g header footer =
     g\<lparr>max_decompressed_size := max (unat (decompressed_size_f footer)) (max_decompressed_size g),
       h_compressed_offsets := h_compressed_offsets g @
          [if 0 \<le> data_size header then compressed_size g + nat (data_size header)
           else size_sub (compressed_size g) (nat (- data_size header))],
       h_decompressed_offsets := h_decompressed_offsets g @
          [decompressed_size g + unat (decompressed_size_f footer)]\<rparr>"

definition consume_bytes :: "decompression_blocks \<Rightarrow> nat \<Rightarrow> error + decompression_blocks" where
  "consume_bytes g sz =
     (if sz \<le> remaining_size g then Inr (g\<lparr>read_pos := read_pos g + sz\<rparr>)
      else Inl Out_of_bounds)"

subsection \<open>The reader\<close>

record bgzip_data_chunk_reader =
  data_stream :: istream
  prev_blocks :: decompression_blocks
  curr_blocks :: decompression_blocks
  local_end :: nat
  compressed_pos :: nat
  compressed_end :: nat

definition chunk_load_size :: nat where
  "chunk_load_size = 2 ^ 24"

text \<open>The loop of \<open>read_next_compressed_chunk\<close>.\<close>

function read_compressed_blocks ::
  "endianness \<Rightarrow> nat \<Rightarrow> bgzip_data_chunk_reader \<Rightarrow> error + bgzip_data_chunk_reader" where
  "read_compressed_blocks host requested_size r =
     (if decompressed_size (curr_blocks r) < requested_size then
        (if eofbit (data_stream r) then Inr r
         else
           case stream_peek (data_stream r) of
             Inl e \<Rightarrow> Inl e
           | Inr s1 \<Rightarrow>
               if eofbit s1 \<or> compressed_pos r > compressed_end r
               then Inr (r\<lparr>data_stream := s1\<rparr>)
               else
                 (case read_header host s1 of
                   Inl e \<Rightarrow> Inl e
                 | Inr (header, s2) \<Rightarrow>
                     (case read_block (curr_blocks r) header s2 of
                        Inl e \<Rightarrow> Inl e
                      | Inr (g1, s3) \<Rightarrow>
                          (case read_footer host s3 of
                             Inl e \<Rightarrow> Inl e
                           | Inr (footer, s4) \<Rightarrow>
                               if compressed_pos r = compressed_end r then
                                 Inr (r\<lparr>data_stream := s4,
                                        curr_blocks := (add_block_offsets g1 header footer)
                                          \<lparr>available_decompressed_size :=
                                             available_decompressed_size g1 + local_end r\<rparr>,
                                        compressed_pos :=
                                          compressed_pos r + nat (block_size header)\<rparr>)
                               else
                                 read_compressed_blocks host requested_size
                                   (r\<lparr>data_stream := s4,
                                      curr_blocks := (add_block_offsets g1 header footer)
                                        \<lparr>available_decompressed_size :=
                                           available_decompressed_size g1
                                           + unat (decompressed_size_f footer)\<rparr>,
                                      compressed_pos :=
                                        compressed_pos r + nat (block_size header)\<rparr>)))))
      else Inr r)"
  by pat_completeness auto

definition read_next_compressed_chunk ::
  "endianness \<Rightarrow> nat \<Rightarrow> bgzip_data_chunk_reader \<Rightarrow> error + bgzip_data_chunk_reader" where
  "read_next_compressed_chunk host requested_size r =
     read_compressed_blocks host requested_size
       (r\<lparr>curr_blocks := reset (prev_blocks r), prev_blocks := curr_blocks r\<rparr>)"

text \<open>
  The constructor.  \<open>virtual_begin\<close> and \<open>virtual_end\<close> are \<open>uint64_t\<close>.
\<close>

definition new_bgzip_data_chunk_reader ::
  "endianness \<Rightarrow> istream \<Rightarrow> 64 word \<Rightarrow> 64 word \<Rightarrow> error + bgzip_data_chunk_reader" where
  "new_bgzip_data_chunk_reader host input_stream virtual_begin virtual_end =
     (case stream_seekg_cur (uint (drop_bit 16 virtual_begin)) input_stream of
        Inl e \<Rightarrow> Inl e
      | Inr s1 \<Rightarrow>
          (case read_next_compressed_chunk host chunk_load_size
                 \<lparr>data_stream = s1,
                  prev_blocks = new_decompression_blocks,
                  curr_blocks = new_decompression_blocks,
                  local_end = unat (virtual_end AND 0xFFFF),
                  compressed_pos = unat (drop_bit 16 virtual_begin),
                  compressed_end = unat (drop_bit 16 virtual_end)\<rparr> of
            Inl e \<Rightarrow> Inl e
          | Inr r \<Rightarrow>
              if 0 < unat (virtual_begin AND 0xFFFF) then
                (if 1 < length (h_compressed_offsets (curr_blocks r))
                    \<and> unat (virtual_begin AND 0xFFFF) < h_compressed_offsets (curr_blocks r) ! 1
                 then
                   (case consume_bytes (curr_blocks r) (unat (virtual_begin AND 0xFFFF)) of
                      Inl e \<Rightarrow> Inl e
                    | Inr g \<Rightarrow> Inr (r\<lparr>curr_blocks := g\<rparr>))
                 else Inl Local_offset_out_of_bounds)
              else Inr r))"

text \<open>
  \<open>skip_bytes\<close>: the statements after the loop are \<open>skip_rest\<close>.  The loop need
  not end in a state where the offset tables of both groups do not start with \<open>0\<close>, so
  it is a partial function: \<open>None\<close> is a run that never returns.
\<close>

definition skip_rest :: "nat \<Rightarrow> bgzip_data_chunk_reader \<Rightarrow> error + bgzip_data_chunk_reader" where
  "skip_rest read_size r =
     (case consume_bytes (curr_blocks r) (min read_size (remaining_size (curr_blocks r))) of
        Inl e \<Rightarrow> Inl e
      | Inr g \<Rightarrow> Inr (r\<lparr>curr_blocks := g\<rparr>))"

partial_function (option) skip_bytes ::
  "endianness \<Rightarrow> nat \<Rightarrow> bgzip_data_chunk_reader \<Rightarrow> (error + bgzip_data_chunk_reader) option" where
  "skip_bytes host read_size r =
     (if read_size > remaining_size (curr_blocks r) then
        (case consume_bytes (curr_blocks r) (remaining_size (curr_blocks r)) of
           Inl e \<Rightarrow> Some (Inl e)
         | Inr g \<Rightarrow>
             (case read_next_compressed_chunk host chunk_load_size (r\<lparr>curr_blocks := g\<rparr>) of
                Inl e \<Rightarrow> Some (Inl e)
              | Inr r1 \<Rightarrow>
                  if eofbit (data_stream r1)
                  then Some (skip_rest (size_sub read_size (remaining_size (curr_blocks r))) r1)
                  else
                    (case stream_peek (data_stream r1) of
                       Inl e \<Rightarrow> Some (Inl e)
                     | Inr s1 \<Rightarrow>
                         if eofbit s1 \<or> compressed_pos r1 > compressed_end r1
                         then Some (skip_rest (size_sub read_size (remaining_size (curr_blocks r)))
                                (r1\<lparr>data_stream := s1\<rparr>))
                         else skip_bytes host (size_sub read_size (remaining_size (curr_blocks r)))
                                (r1\<lparr>data_stream := s1\<rparr>))))
      else Some (skip_rest read_size r))"

text \<open>
  \<open>get_next_chunk\<close> returns the bytes of the chunk and the reader.  The fresh buffer
  \<open>data(read_size)\<close> is uninitialised in the source and zero here.
\<close>

definition get_next_chunk ::
  "endianness \<Rightarrow> (byte list \<Rightarrow> byte list) \<Rightarrow> nat \<Rightarrow> bgzip_data_chunk_reader \<Rightarrow>
   error + (byte list \<times> bgzip_data_chunk_reader)" where
  "get_next_chunk host inflate read_size r =
     (if read_size \<le> remaining_size (curr_blocks r) then
        (let c = fst (decompress inflate (curr_blocks r));
             data = device_copy (replicate read_size 0) 0
                      (d_decompressed_blocks c) (read_pos c) read_size
         in (case consume_bytes c read_size of
               Inl e \<Rightarrow> Inl e
             | Inr c' \<Rightarrow> Inr (data, r\<lparr>curr_blocks := c'\<rparr>)))
      else
        (case read_next_compressed_chunk host read_size r of
          Inl e \<Rightarrow> Inl e
        | Inr r1 \<Rightarrow>
            let p = fst (decompress inflate (prev_blocks r1));
                c = fst (decompress inflate (curr_blocks r1));
                read_size1 = min read_size (remaining_size p + remaining_size c);
                data1 = device_copy (replicate read_size1 0) 0
                          (d_decompressed_blocks p) (read_pos p) (remaining_size p);
                data2 = device_copy data1 (remaining_size p)
                          (d_decompressed_blocks c) (read_pos c)
                          (size_sub read_size1 (remaining_size p))
            in (case consume_bytes p (remaining_size p) of
                  Inl e \<Rightarrow> Inl e
                | Inr p' \<Rightarrow>
                    (case consume_bytes c (size_sub read_size1 (remaining_size p)) of
                       Inl e \<Rightarrow> Inl e
                     | Inr c' \<Rightarrow> Inr (data2, r1\<lparr>prev_blocks := p', curr_blocks := c'\<rparr>)))))"

text \<open>Reading a list of chunk sizes, one \<open>get_next_chunk\<close> after the other.\<close>

fun get_chunks ::
  "endianness \<Rightarrow> (byte list \<Rightarrow> byte list) \<Rightarrow> nat list \<Rightarrow> bgzip_data_chunk_reader \<Rightarrow>
   error + (byte list list \<times> bgzip_data_chunk_reader)" where
  "get_chunks host inflate [] r = Inr ([], r)"
| "get_chunks host inflate (n # ns) r =
     (case get_next_chunk host inflate n r of
        Inl e \<Rightarrow> Inl e
      | Inr (chunk, r1) \<Rightarrow>
          (case get_chunks host inflate ns r1 of
             Inl e \<Rightarrow> Inl e
           | Inr (chunks, r2) \<Rightarrow> Inr (chunk # chunks, r2)))"

text \<open>
  The reader after one more block in the loop of \<open>read_next_compressed_chunk\<close>: the
  block is added to the current group, \<open>avail\<close> more bytes are exposed and the cursor
  moves on.
\<close>

definition next_reader ::
  "bgzip_data_chunk_reader \<Rightarrow> bgzip_header \<Rightarrow> decompression_blocks \<Rightarrow> bgzip_footer \<Rightarrow>
   istream \<Rightarrow> nat \<Rightarrow> bgzip_data_chunk_reader" where
  "next_reader r header g1 footer s4 avail =
     r\<lparr>data_stream := s4,
       curr_blocks := (add_block_offsets g1 header footer)
          \<lparr>available_decompressed_size := available_decompressed_size g1 + avail\<rparr>,
       compressed_pos := compressed_pos r + nat (block_size header)\<rparr>"

section \<open>Invariants of the block groups\<close>

text \<open>The read position of a group never passes the bytes that the group exposes.\<close>

definition read_pos_ok :: "decompression_blocks \<Rightarrow> bool" where
  "read_pos_ok g \<longleftrightarrow> read_pos g \<le> available_decompressed_size g"

definition reader_read_pos_ok :: "bgzip_data_chunk_reader \<Rightarrow> bool" where
  "reader_read_pos_ok r \<longleftrightarrow> read_pos_ok (prev_blocks r) \<and> read_pos_ok (curr_blocks r)"

section \<open>A sample stream\<close>

text \<open>
  The decompression backend restricted to DEFLATE streams of a single stored block: one
  byte of block header, the length and its complement on two bytes each, then the bytes
  themselves.  It stands for the backend where a theorem is instantiated.
\<close>

definition stored_inflate :: "byte list \<Rightarrow> byte list" where
  "stored_inflate c = take (le_value (take 2 (drop 1 c))) (drop 5 c)"

text \<open>
  A BGZIP file of three blocks: \<open>abc\<close>, \<open>de\<close> and the empty block that marks the
  end of the file.
\<close>

definition demo_content :: "byte list" where
  "demo_content =
     [31, 139, 8, 4, 0, 0, 0, 0, 0, 255, 6, 0, 66, 67, 2, 0, 33, 0,
      1, 3, 0, 252, 255, 97, 98, 99, 194, 65, 36, 53, 3, 0, 0, 0,
      31, 139, 8, 4, 0, 0, 0, 0, 0, 255, 6, 0, 66, 67, 2, 0, 32, 0,
      1, 2, 0, 253, 255, 100, 101, 139, 41, 144, 125, 2, 0, 0, 0,
      31, 139, 8, 4, 0, 0, 0, 0, 0, 255, 6, 0, 66, 67, 2, 0, 27, 0,
      3, 0, 0, 0, 0, 0, 0, 0, 0, 0]"

definition demo_stream :: istream where
  "demo_stream = \<lparr>content = demo_content, gpos = 0, eofbit = False\<rparr>"

text \<open>The reader of the whole sample file, as \<open>make_source_from_bgzip_file(filename)\<close>
  creates it, on a little-endian host.\<close>

definition demo_reader :: bgzip_data_chunk_reader where
  "demo_reader =
     projr (new_bgzip_data_chunk_reader Little_endian demo_stream 0 0xFFFFFFFFFFFFFFFF)"

text \<open>
  The two host offset tables of a group: as long as each other, not empty, starting with
  \<open>0\<close> and nondecreasing.
\<close>

definition offsets_ok :: "nat list \<Rightarrow> bool" where
  "offsets_ok xs \<longleftrightarrow> 1 \<le> length xs \<and> xs ! 0 = 0 \<and> sorted xs"

definition tables_ok :: "decompression_blocks \<Rightarrow> bool" where
  "tables_ok g \<longleftrightarrow>
     length (h_compressed_offsets g) = length (h_decompressed_offsets g)
     \<and> offsets_ok (h_compressed_offsets g) \<and> offsets_ok (h_decompressed_offsets g)"

definition reader_tables_ok :: "bgzip_data_chunk_reader \<Rightarrow> bool" where
  "reader_tables_ok r \<longleftrightarrow> tables_ok (prev_blocks r) \<and> tables_ok (curr_blocks r)"

text \<open>
  A BGZIP file whose first block holds the DEFLATE stream \<open>75, 76, 132, 1, 0\<close> of the
  ten bytes \<open>aaaaaaaaaa\<close>, followed by the empty block that marks the end of the file.
\<close>

definition deflate_content :: "byte list" where
  "deflate_content =
     [31, 139, 8, 4, 0, 0, 0, 0, 0, 255, 6, 0, 66, 67, 2, 0, 30, 0,
      75, 76, 132, 1, 0, 240, 205, 17, 76, 10, 0, 0, 0,
      31, 139, 8, 4, 0, 0, 0, 0, 0, 255, 6, 0, 66, 67, 2, 0, 27, 0,
      3, 0, 0, 0, 0, 0, 0, 0, 0, 0]"

definition deflate_stream :: istream where
  "deflate_stream = \<lparr>content = deflate_content, gpos = 0, eofbit = False\<rparr>"

section \<open>The BGZIP format, as an encoder\<close>

text \<open>
  To state what the reader does on well-formed input, the format is written down as the
  bytes of a block.  Integers are little-endian.  An extra subfield is two identifier
  bytes, the 16-bit length of its payload and the payload.
\<close>

definition u16_bytes :: "nat \<Rightarrow> byte list" where
  "u16_bytes n = [word_of_nat (n mod 256), word_of_nat (n div 256)]"

definition u32_bytes :: "nat \<Rightarrow> byte list" where
  "u32_bytes n = u16_bytes (n mod 65536) @ u16_bytes (n div 65536)"

type_synonym subfield = "byte \<times> byte \<times> byte list"

definition is_size_subfield :: "subfield \<Rightarrow> bool" where
  "is_size_subfield sf \<longleftrightarrow> fst sf = 66 \<and> fst (snd sf) = 67"

definition enc_subfield :: "subfield \<Rightarrow> byte list" where
  "enc_subfield sf = [fst sf, fst (snd sf)] @ u16_bytes (length (snd (snd sf))) @ snd (snd sf)"

definition enc_subfields :: "subfield list \<Rightarrow> byte list" where
  "enc_subfields sfs = concat (map enc_subfield sfs)"

text \<open>
  The end of the scan of an extra field of \<open>xlen\<close> bytes: the skipped subfields are
  followed by \<open>rest\<close>, the bytes of the extra field from the first size subfield on, and
  \<open>s\<close> is the stream after the extra field.
\<close>

definition scan_rest :: "nat \<Rightarrow> byte list \<Rightarrow> istream \<Rightarrow> error + (bgzip_header \<times> istream)" where
  "scan_rest xlen rest s =
     (if rest = [] then Inl Missing_subfield
      else if length rest < 4 then Inl Invalid_extra_length
      else if le_value (take 2 (drop 2 rest)) \<noteq> 2 then Inl Malformed_subfield
      else Inr (\<lparr>block_size = int (le_value (take 2 (drop 4 rest))) + 1,
                extra_length = int xlen\<rparr>, s))"

text \<open>
  \<open>rest\<close> is empty, or the cut-off start of a subfield, or starts with a size subfield
  whose payload, where it declares two bytes, lies in the extra field.
\<close>

definition rest_ok :: "byte list \<Rightarrow> bool" where
  "rest_ok rest \<longleftrightarrow>
     length rest < 4
     \<or> (rest ! 0 = 66 \<and> rest ! 1 = 67
        \<and> (le_value (take 2 (drop 2 rest)) \<noteq> 2 \<or> 6 \<le> length rest))"

definition skipped_ok :: "subfield list \<Rightarrow> bool" where
  "skipped_ok sfs \<longleftrightarrow> list_all (\<lambda>sf. \<not> is_size_subfield sf) sfs"






text \<open>
  A block: the six bytes of the fixed header after the magic (modification time, extra
  flags, operating system), the subfields before the size subfield, the bytes of the extra
  field after it, the DEFLATE payload, the CRC and the data that the payload decompresses
  to.
\<close>

record bgzip_block =
  fixed :: "byte list"
  skipped :: "subfield list"
  trailing :: "byte list"
  cdata :: "byte list"
  crc :: "byte list"
  udata :: "byte list"

definition xlen_of :: "bgzip_block \<Rightarrow> nat" where
  "xlen_of b = length (enc_subfields (skipped b)) + 6 + length (trailing b)"

definition bsize_of :: "bgzip_block \<Rightarrow> nat" where
  "bsize_of b = 12 + xlen_of b + length (cdata b) + 8"

definition enc_header :: "bgzip_block \<Rightarrow> byte list" where
  "enc_header b =
     ([31, 139, 8, 4] @ fixed b @ u16_bytes (xlen_of b))
     @ enc_subfields (skipped b)
     @ ([66, 67] @ u16_bytes 2 @ u16_bytes (bsize_of b - 1) @ trailing b)"

definition enc_block :: "bgzip_block \<Rightarrow> byte list" where
  "enc_block b = enc_header b @ cdata b @ crc b @ u32_bytes (length (udata b))"

definition enc_blocks :: "bgzip_block list \<Rightarrow> byte list" where
  "enc_blocks bs = concat (map enc_block bs)"

text \<open>
  A block is valid for a backend when its fields have their sizes, the whole block is at
  most \<open>2 ^ 16\<close> bytes long, so that its size minus one fits the size subfield, and the
  backend decompresses the payload to the data.
\<close>

definition valid_block :: "(byte list \<Rightarrow> byte list) \<Rightarrow> bgzip_block \<Rightarrow> bool" where
  "valid_block inflate b \<longleftrightarrow>
     length (fixed b) = 6 \<and> skipped_ok (skipped b) \<and> bsize_of b \<le> 65536
     \<and> length (crc b) = 4 \<and> length (udata b) < 2 ^ 32 \<and> inflate (cdata b) = udata b"

definition data_of :: "bgzip_block list \<Rightarrow> byte list" where
  "data_of bs = concat (map udata bs)"

text \<open>
  The bytes of the virtual range that lie in the blocks \<open>bs\<close>, the first of which starts
  at the compressed offset \<open>cpos\<close>: whole blocks up to the compressed offset \<open>cend\<close> of the
  end of the range, and the first \<open>lend\<close> bytes of the block that starts there.
\<close>

fun range_data :: "nat \<Rightarrow> nat \<Rightarrow> nat \<Rightarrow> bgzip_block list \<Rightarrow> byte list" where
  "range_data cpos cend lend [] = []"
| "range_data cpos cend lend (b # bs) =
     (if cend < cpos then []
      else if cpos = cend then take lend (udata b)
      else udata b @ range_data (cpos + bsize_of b) cend lend bs)"

text \<open>The end of the range lies in its block: \<open>lend\<close> is at most the size of its data.\<close>

fun end_ok :: "nat \<Rightarrow> nat \<Rightarrow> nat \<Rightarrow> bgzip_block list \<Rightarrow> bool" where
  "end_ok cpos cend lend [] = True"
| "end_ok cpos cend lend (b # bs) =
     (if cend < cpos then True
      else if cpos = cend then lend \<le> length (udata b)
      else end_ok (cpos + bsize_of b) cend lend bs)"

text \<open>The offset table of blocks of the sizes \<open>ns\<close>.\<close>

definition offsets_of :: "nat list \<Rightarrow> nat list" where
  "offsets_of ns = map (\<lambda>i. sum_list (take i ns)) [0..<Suc (length ns)]"

text \<open>The host tables of a group that holds the blocks \<open>bs\<close>.\<close>

definition group_holds :: "decompression_blocks \<Rightarrow> bgzip_block list \<Rightarrow> bool" where
  "group_holds g bs \<longleftrightarrow>
     h_compressed_blocks g = concat (map cdata bs)
     \<and> h_compressed_offsets g = offsets_of (map (\<lambda>b. length (cdata b)) bs)
     \<and> h_decompressed_offsets g = offsets_of (map (\<lambda>b. length (udata b)) bs)"

text \<open>
  What a run of the loop of \<open>read_next_compressed_chunk\<close> has done when it started in
  the reader \<open>r\<close>, whose current group held the blocks \<open>G\<close>, with the blocks \<open>rest\<close>
  ahead in the stream, and ended in \<open>r'\<close>: it has added the blocks \<open>ld\<close> to the group and
  left \<open>rest'\<close> ahead.  The bytes exposed by the group followed by the bytes of the range
  that are still ahead are the same as before; and either the requested \<open>n\<close> bytes are
  exposed or nothing of the range is ahead.
\<close>

definition loaded ::
  "nat \<Rightarrow> bgzip_data_chunk_reader \<Rightarrow> bgzip_block list \<Rightarrow> bgzip_block list \<Rightarrow>
   bgzip_data_chunk_reader \<Rightarrow> bgzip_block list \<Rightarrow> bgzip_block list \<Rightarrow> bool" where
  "loaded n r G rest r' ld rest' \<longleftrightarrow>
     rest = ld @ rest'
     \<and> content (data_stream r') = content (data_stream r)
     \<and> gpos (data_stream r') = gpos (data_stream r) + length (enc_blocks ld)
     \<and> (eofbit (data_stream r') \<longrightarrow> rest' = [])
     \<and> compressed_pos r' = compressed_pos r + length (enc_blocks ld)
     \<and> compressed_end r' = compressed_end r \<and> local_end r' = local_end r
     \<and> prev_blocks r' = prev_blocks r
     \<and> group_holds (curr_blocks r') (G @ ld)
     \<and> read_pos (curr_blocks r') = read_pos (curr_blocks r)
     \<and> is_decompressed (curr_blocks r') = is_decompressed (curr_blocks r)
     \<and> available_decompressed_size (curr_blocks r') \<le> length (data_of (G @ ld))
     \<and> take (available_decompressed_size (curr_blocks r')) (data_of (G @ ld))
           @ range_data (compressed_pos r') (compressed_end r) (local_end r) rest'
         = data_of G @ range_data (compressed_pos r) (compressed_end r) (local_end r) rest
     \<and> (n \<le> available_decompressed_size (curr_blocks r')
          \<or> range_data (compressed_pos r') (compressed_end r) (local_end r) rest' = [])
     \<and> end_ok (compressed_pos r') (compressed_end r) (local_end r) rest'
     \<and> (ld = [] \<longrightarrow> n \<le> decompressed_size (curr_blocks r) \<or> rest = []
           \<or> compressed_end r < compressed_pos r)"

text \<open>
  The state of a reader over a stream of valid blocks.  The blocks \<open>done\<close> have been
  read from the stream and \<open>rest\<close> are ahead; the current group holds the blocks \<open>G\<close>,
  decompressed or not, and exposes a prefix of their data, of which \<open>read_pos\<close> bytes are
  consumed; the previous group is consumed entirely and its tables start with \<open>0\<close>.
\<close>

definition starts_zero :: "decompression_blocks \<Rightarrow> bool" where
  "starts_zero g \<longleftrightarrow>
     take 1 (h_compressed_offsets g) = [0] \<and> take 1 (h_decompressed_offsets g) = [0]"

definition reader_at ::
  "(byte list \<Rightarrow> byte list) \<Rightarrow> bgzip_block list \<Rightarrow> bgzip_block list \<Rightarrow> bgzip_block list \<Rightarrow>
   bgzip_data_chunk_reader \<Rightarrow> bool" where
  "reader_at inflate done G rest r \<longleftrightarrow>
     list_all (valid_block inflate) (done @ rest)
     \<and> content (data_stream r) = enc_blocks (done @ rest)
     \<and> gpos (data_stream r) = length (enc_blocks done)
     \<and> (eofbit (data_stream r) \<longrightarrow> rest = [])
     \<and> list_all (valid_block inflate) G
     \<and> group_holds (curr_blocks r) G
     \<and> (is_decompressed (curr_blocks r) \<longrightarrow> d_decompressed_blocks (curr_blocks r) = data_of G)
     \<and> read_pos (curr_blocks r) \<le> available_decompressed_size (curr_blocks r)
     \<and> available_decompressed_size (curr_blocks r) \<le> length (data_of G)
     \<and> starts_zero (prev_blocks r)
     \<and> read_pos (prev_blocks r) = available_decompressed_size (prev_blocks r)
     \<and> end_ok (compressed_pos r) (compressed_end r) (local_end r) rest"

text \<open>
  The bytes that such a reader has yet to serve: the unread bytes that the current group
  exposes, then the bytes of the range in the blocks ahead.
\<close>

definition unread ::
  "bgzip_data_chunk_reader \<Rightarrow> bgzip_block list \<Rightarrow> bgzip_block list \<Rightarrow> byte list" where
  "unread r G rest =
     drop (read_pos (curr_blocks r))
       (take (available_decompressed_size (curr_blocks r)) (data_of G))
     @ range_data (compressed_pos r) (compressed_end r) (local_end r) rest"

definition serving ::
  "(byte list \<Rightarrow> byte list) \<Rightarrow> bgzip_block list \<Rightarrow> bgzip_data_chunk_reader \<Rightarrow> byte list \<Rightarrow> bool" where
  "serving inflate bs r L \<longleftrightarrow>
     (\<exists>done G rest. bs = done @ rest \<and> reader_at inflate done G rest r \<and> L = unread r G rest)"

text \<open>The consecutive pieces of the sizes \<open>ns\<close> of a byte sequence.\<close>

fun slices :: "nat list \<Rightarrow> byte list \<Rightarrow> byte list list" where
  "slices [] L = []"
| "slices (n # ns) L = take n L # slices ns (drop n L)"

text \<open>The three blocks of the sample file.\<close>

definition demo_blocks :: "bgzip_block list" where
  "demo_blocks =
     [\<lparr>fixed = [0, 0, 0, 0, 0, 255], skipped = [], trailing = [],
       cdata = [1, 3, 0, 252, 255, 97, 98, 99], crc = [194, 65, 36, 53], udata = [97, 98, 99]\<rparr>,
      \<lparr>fixed = [0, 0, 0, 0, 0, 255], skipped = [], trailing = [],
       cdata = [1, 2, 0, 253, 255, 100, 101], crc = [139, 41, 144, 125], udata = [100, 101]\<rparr>,
      \<lparr>fixed = [0, 0, 0, 0, 0, 255], skipped = [], trailing = [],
       cdata = [3, 0], crc = [0, 0, 0, 0], udata = []\<rparr>]"

text \<open>
  The reader of the sample file for the range that ends after the first byte of the second
  block (compressed offset 34, local offset 1), and a reader that stands at the start of
  the sample file with the end of its range two bytes into the first block.
\<close>

definition demo_range_reader :: bgzip_data_chunk_reader where
  "demo_range_reader = projr (new_bgzip_data_chunk_reader Little_endian demo_stream 0 2228225)"

definition demo_start :: bgzip_data_chunk_reader where
  "demo_start =
     \<lparr>data_stream = demo_stream, prev_blocks = new_decompression_blocks,
      curr_blocks = new_decompression_blocks,
      local_end = 2, compressed_pos = 0, compressed_end = 0\<rparr>"

text \<open>
  A stream that breaks off: one block whose footer declares \<open>2 ^ 24\<close> bytes of data,
  as many as the reader loads at a time, and twelve bytes that are no header.
\<close>

definition broken_content :: "byte list" where
  "broken_content =
     [31, 139, 8, 4, 0, 0, 0, 0, 0, 255, 6, 0, 66, 67, 2, 0, 27, 0,
      3, 0, 0, 0, 0, 0, 0, 0, 0, 1,
      0, 0, 0, 0, 0, 0, 0, 0, 0, 0, 0, 0]"

definition broken_stream :: istream where
  "broken_stream = \<lparr>content = broken_content, gpos = 0, eofbit = False\<rparr>"

definition broken_reader :: bgzip_data_chunk_reader where
  "broken_reader =
     projr (new_bgzip_data_chunk_reader Little_endian broken_stream 0 0xFFFFFFFFFFFFFFFF)"

section \<open>Termination of the loops\<close>

lemma stream_read_Inr:
  "stream_read n s = Inr (bs, s') \<Longrightarrow>
     content s' = content s \<and> gpos s' = gpos s + n \<and> n \<le> length (content s) - gpos s
     \<and> eofbit s' = eofbit s \<and> \<not> eofbit s"
  by (auto simp: stream_read_def split: if_splits)

lemma stream_seekg_cur_Inr:
  "stream_seekg_cur off s = Inr s' \<Longrightarrow>
     content s' = content s \<and> int (gpos s') = int (gpos s) + off \<and> \<not> eofbit s'"
  by (auto simp: stream_seekg_cur_def split: if_splits)

lemma stream_seekg_cur_forward:
  "stream_seekg_cur (uint w) s = Inr s' \<Longrightarrow> content s' = content s \<and> gpos s' = gpos s + unat w"
  by (auto simp: stream_seekg_cur_def nat_add_distrib split: if_splits)

termination read_extra_subfields
proof (relation "measure (\<lambda>(host, xlen, extra_offset, s). length (content s) - gpos s)")
  show "wf (measure (\<lambda>(host, xlen, extra_offset, s). length (content s) - gpos s))"
    by simp
next
  fix host :: endianness and xlen extra_offset :: "16 word" and s x2 x1 s1 s2
  assume rd: "stream_read 4 s = Inr x2" and x2: "(x1, s1) = x2"
    and sk: "stream_seekg_cur (uint (read_int host (drop 2 x1) :: 16 word)) s1 = Inr s2"
  from rd x2 have r: "content s1 = content s" "gpos s1 = gpos s + 4"
    "4 \<le> length (content s) - gpos s"
    using stream_read_Inr [of 4 s x1 s1] by auto
  from sk have k: "content s2 = content s1" "gpos s1 \<le> gpos s2"
    using stream_seekg_cur_forward [OF sk] by auto
  from r k show "((host, xlen, extra_offset + 4 + read_int host (drop 2 x1), s2),
                 (host, xlen, extra_offset, s))
                \<in> measure (\<lambda>(host, xlen, extra_offset, s). length (content s) - gpos s)"
    by simp
qed

declare read_extra_subfields.simps [simp del]

lemma stream_peek_Inr:
  "stream_peek s = Inr s' \<Longrightarrow>
     content s' = content s \<and> gpos s' = gpos s \<and> \<not> eofbit s
     \<and> (eofbit s' \<longleftrightarrow> length (content s) \<le> gpos s)"
  by (auto simp: stream_peek_def split: if_splits)

lemma read_extra_subfields_progress:
  "read_extra_subfields host xlen extra_offset s = Inr (h, s') \<Longrightarrow>
     content s' = content s \<and> gpos s + 4 \<le> gpos s'"
proof (induction host xlen extra_offset s rule: read_extra_subfields.induct)
  case (1 host xlen extra_offset s)
  from "1.prems" obtain buffer s1 where
    lt: "extra_offset < xlen" and rem: "\<not> uint xlen - uint extra_offset < 4"
    and rd: "stream_read 4 s = Inr (buffer, s1)"
    by (subst (asm) read_extra_subfields.simps) (auto split: if_splits sum.splits)
  from stream_read_Inr [OF rd] have s1: "content s1 = content s" "gpos s1 = gpos s + 4"
    by auto
  show ?case
  proof (cases "buffer ! 0 = 66 \<and> buffer ! 1 = 67")
    case True
    with "1.prems" lt rem rd obtain buffer2 s2 where
      rd2: "stream_read 2 s1 = Inr (buffer2, s2)"
      and sk: "stream_seekg_cur (uint xlen - uint extra_offset - 6) s2 = Inr s'"
      by (subst (asm) read_extra_subfields.simps) (auto split: if_splits sum.splits)
    from stream_read_Inr [OF rd2] stream_seekg_cur_Inr [OF sk] s1 rem
    show ?thesis by auto
  next
    case False
    with "1.prems" lt rem rd obtain s2 where
      sk: "stream_seekg_cur (uint (read_int host (drop 2 buffer) :: 16 word)) s1 = Inr s2"
      and rec: "read_extra_subfields host xlen (extra_offset + 4 + read_int host (drop 2 buffer)) s2
                = Inr (h, s')"
      by (subst (asm) read_extra_subfields.simps) (auto split: if_splits sum.splits)
    from "1.IH" [OF lt rem rd refl False sk rec] stream_seekg_cur_forward [OF sk] s1
    show ?thesis by auto
  qed
qed


lemma read_header_progress:
  "read_header host s = Inr (h, s') \<Longrightarrow> content s' = content s \<and> gpos s + 16 \<le> gpos s'"
  by (auto simp: read_header_def split: sum.splits prod.splits if_splits
      dest!: stream_read_Inr read_extra_subfields_progress)

lemma read_block_progress:
  "read_block g h s = Inr (g', s') \<Longrightarrow> content s' = content s \<and> gpos s \<le> gpos s'"
  by (auto simp: read_block_def split: sum.splits prod.splits if_splits dest!: stream_read_Inr)

lemma read_footer_progress:
  "read_footer host s = Inr (f, s') \<Longrightarrow> content s' = content s \<and> gpos s' = gpos s + 8"
  by (auto simp: read_footer_def split: sum.splits prod.splits if_splits dest!: stream_read_Inr)

termination read_compressed_blocks
proof (relation "measure (\<lambda>(host, requested_size, r).
                   length (content (data_stream r)) - gpos (data_stream r))")
  show "wf (measure (\<lambda>(host, requested_size, r).
                   length (content (data_stream r)) - gpos (data_stream r)))"
    by simp
next
  fix host :: endianness and requested_size :: nat and r :: bgzip_data_chunk_reader
    and s1 x2 header s2 x2a g1 s3 x2b footer s4
  assume pk: "stream_peek (data_stream r) = Inr s1"
    and ne: "\<not> (eofbit s1 \<or> compressed_end r < compressed_pos r)"
    and hd: "read_header host s1 = Inr x2" "(header, s2) = x2"
    and bl: "read_block (curr_blocks r) header s2 = Inr x2a" "(g1, s3) = x2a"
    and ft: "read_footer host s3 = Inr x2b" "(footer, s4) = x2b"
  from stream_peek_Inr [OF pk] ne
  have a: "content s1 = content (data_stream r)" "gpos s1 = gpos (data_stream r)"
    "gpos (data_stream r) < length (content (data_stream r))"
    by auto
  from hd have b: "content s2 = content s1" "gpos s1 + 16 \<le> gpos s2"
    using read_header_progress [of host s1 header s2] by auto
  from bl have c: "content s3 = content s2" "gpos s2 \<le> gpos s3"
    using read_block_progress [of "curr_blocks r" header s2 g1 s3] by auto
  from ft have d: "content s4 = content s3" "gpos s4 = gpos s3 + 8"
    using read_footer_progress [of host s3 footer s4] by auto
  from a b c d
  show "((host, requested_size,
          r\<lparr>data_stream := s4,
              curr_blocks := (add_block_offsets g1 header footer)
                \<lparr>available_decompressed_size :=
                   available_decompressed_size g1 + unat (decompressed_size_f footer)\<rparr>,
              compressed_pos := compressed_pos r + nat (block_size header)\<rparr>),
         (host, requested_size, r))
        \<in> measure (\<lambda>(host, requested_size, r).
                   length (content (data_stream r)) - gpos (data_stream r))"
    by simp
qed

declare read_compressed_blocks.simps [simp del]

lemma read_compressed_blocks_induct [consumes 1, case_names enough eof stop last step]:
  assumes run: "read_compressed_blocks host n r = Inr r'"
    and enough: "\<And>r. \<not> decompressed_size (curr_blocks r) < n \<Longrightarrow> P r r"
    and eof: "\<And>r. decompressed_size (curr_blocks r) < n \<Longrightarrow> eofbit (data_stream r) \<Longrightarrow> P r r"
    and stop: "\<And>r s1. decompressed_size (curr_blocks r) < n \<Longrightarrow> \<not> eofbit (data_stream r) \<Longrightarrow>
        stream_peek (data_stream r) = Inr s1 \<Longrightarrow>
        eofbit s1 \<or> compressed_end r < compressed_pos r \<Longrightarrow> P r (r\<lparr>data_stream := s1\<rparr>)"
    and last: "\<And>r header s2 g1 s3 footer s4.
        decompressed_size (curr_blocks r) < n \<Longrightarrow> \<not> eofbit (data_stream r) \<Longrightarrow>
        gpos (data_stream r) < length (content (data_stream r)) \<Longrightarrow>
        compressed_pos r = compressed_end r \<Longrightarrow>
        read_header host (data_stream r) = Inr (header, s2) \<Longrightarrow>
        read_block (curr_blocks r) header s2 = Inr (g1, s3) \<Longrightarrow>
        read_footer host s3 = Inr (footer, s4) \<Longrightarrow>
        P r (next_reader r header g1 footer s4 (local_end r))"
    and step: "\<And>r header s2 g1 s3 footer s4 r'.
        decompressed_size (curr_blocks r) < n \<Longrightarrow> \<not> eofbit (data_stream r) \<Longrightarrow>
        gpos (data_stream r) < length (content (data_stream r)) \<Longrightarrow>
        compressed_pos r < compressed_end r \<Longrightarrow>
        read_header host (data_stream r) = Inr (header, s2) \<Longrightarrow>
        read_block (curr_blocks r) header s2 = Inr (g1, s3) \<Longrightarrow>
        read_footer host s3 = Inr (footer, s4) \<Longrightarrow>
        read_compressed_blocks host n
          (next_reader r header g1 footer s4 (unat (decompressed_size_f footer))) = Inr r' \<Longrightarrow>
        P (next_reader r header g1 footer s4 (unat (decompressed_size_f footer))) r' \<Longrightarrow>
        P r r'"
  shows "P r r'"
  using run
proof (induction "length (content (data_stream r)) - gpos (data_stream r)"
         arbitrary: r rule: less_induct)
  case less
  note run = less.prems
  show ?case
  proof (cases "decompressed_size (curr_blocks r) < n")
    case False
    with run have "r' = r" by (subst (asm) read_compressed_blocks.simps) simp
    with enough [OF False] show ?thesis by simp
  next
    case lt: True
    show ?thesis
    proof (cases "eofbit (data_stream r)")
      case True
      with lt run have "r' = r" by (subst (asm) read_compressed_blocks.simps) simp
      with eof [OF lt True] show ?thesis by simp
    next
      case ne: False
      then obtain s1 where pk: "stream_peek (data_stream r) = Inr s1"
        by (cases "gpos (data_stream r) < length (content (data_stream r))")
           (simp_all add: stream_peek_def)
      show ?thesis
      proof (cases "eofbit s1 \<or> compressed_end r < compressed_pos r")
        case True
        with lt ne pk run have "r' = r\<lparr>data_stream := s1\<rparr>"
          by (subst (asm) read_compressed_blocks.simps) simp
        with stop [OF lt ne pk True] show ?thesis by simp
      next
        case go: False
        with pk ne have s1: "s1 = data_stream r"
          "gpos (data_stream r) < length (content (data_stream r))"
          by (auto simp: stream_peek_def split: if_splits)
        from lt ne pk go run obtain header s2 g1 s3 footer s4 where
          hd: "read_header host (data_stream r) = Inr (header, s2)"
          and bl: "read_block (curr_blocks r) header s2 = Inr (g1, s3)"
          and ft: "read_footer host s3 = Inr (footer, s4)"
          unfolding s1 by (subst (asm) read_compressed_blocks.simps) (auto split: sum.splits)
        from read_header_progress [OF hd] read_block_progress [OF bl] read_footer_progress [OF ft]
        have pr: "content s4 = content (data_stream r)" "gpos (data_stream r) < gpos s4"
          by auto
        show ?thesis
        proof (cases "compressed_pos r = compressed_end r")
          case True
          with lt ne pk go hd bl ft run
          have "r' = next_reader r header g1 footer s4 (local_end r)"
            unfolding s1 by (subst (asm) read_compressed_blocks.simps) (simp add: next_reader_def)
          with last [OF lt ne s1(2) True hd bl ft] show ?thesis by simp
        next
          case False
          with lt ne pk go hd bl ft run
          have rec: "read_compressed_blocks host n
                 (next_reader r header g1 footer s4 (unat (decompressed_size_f footer))) = Inr r'"
            unfolding s1 by (subst (asm) read_compressed_blocks.simps) (simp add: next_reader_def)
          have "P (next_reader r header g1 footer s4 (unat (decompressed_size_f footer))) r'"
            using pr s1(2) by (intro less.hyps rec) (simp add: next_reader_def)
          moreover from False go have "compressed_pos r < compressed_end r" by simp
          ultimately show ?thesis
            using step [OF lt ne s1(2) _ hd bl ft rec] by simp
        qed
      qed
    qed
  qed
qed

section \<open>Byte order of the parsed fields\<close>

lemma le_value_sum: "le_value bs = (\<Sum>i<length bs. unat (bs ! i) * 256 ^ i)"
proof (induction bs)
  case Nil
  then show ?case by simp
next
  case (Cons b bs)
  have "(\<Sum>i<length (b # bs). unat ((b # bs) ! i) * 256 ^ i)
        = unat b + (\<Sum>i<length bs. unat (bs ! i) * 256 ^ Suc i)"
    unfolding length_Cons sum.lessThan_Suc_shift by simp
  also have "(\<Sum>i<length bs. unat (bs ! i) * 256 ^ Suc i) = 256 * (\<Sum>i<length bs. unat (bs ! i) * 256 ^ i)"
    by (simp add: sum_distrib_left mult_ac)
  finally show ?case using Cons.IH by simp
qed

lemma le_value_less: "le_value bs < 256 ^ length bs"
proof (induction bs)
  case Nil
  then show ?case by simp
next
  case (Cons b bs)
  have "unat b < 2 ^ LENGTH(8)" by (rule unsigned_less)
  then have "unat b < 256" by simp
  with Cons.IH show ?case by simp
qed

lemma read_int_little_value:
  assumes w: "LENGTH('a::len) = 8 * n" and len: "n \<le> length data"
  shows "unat (read_int Little_endian data :: 'a word) = le_value (take n data)"
proof -
  have n: "LENGTH('a) div 8 = n" using w by simp
  have "le_value (take n data) < 256 ^ n"
    using le_value_less [of "take n data"] len by simp
  also have "(256::nat) ^ n = 2 ^ LENGTH('a)"
    unfolding w by (simp add: power_mult)
  finally show ?thesis
    by (simp add: read_int_def object_value_def n unsigned_of_nat take_bit_nat_eq_self)
qed

text \<open>
  C3 (as the claim states it, refuted): the value that \<open>read_int\<close> parses is the
  little-endian value of the bytes on every host.  On a big-endian host the bytes
  \<open>1, 0\<close> give the 16-bit value 256 and not 1: the \<open>memcpy\<close> is a native read.
\<close>

theorem read_int_big_endian_counterexample:
  "unat (read_int Big_endian [1, 0] :: 16 word) \<noteq> (\<Sum>i<2. unat ([1, 0 :: byte] ! i) * 256 ^ i)"
proof -
  have two: "{..<(2::nat)} = {0, 1}" by auto
  show ?thesis by (simp add: read_int_def object_value_def two)
qed

text \<open>
  C3 (amended): on a little-endian host, which the code assumes, the value that
  \<open>read_int\<close> parses for an integer type of \<open>n\<close> bytes from a buffer of at least \<open>n\<close>
  bytes is the sum of \<open>byte[i] * 256 ^ i\<close> over \<open>i < n\<close>.  This is the function that reads
  \<open>extra_length\<close>, the subfield length, the block size and the decompressed size of the
  footer.
\<close>

theorem read_int_little_endian:
  assumes w: "LENGTH('a::len) = 8 * n" and len: "n \<le> length data"
  shows "unat (read_int Little_endian data :: 'a word) = (\<Sum>i<n. unat (data ! i) * 256 ^ i)"
  using read_int_little_value [OF w len] len by (simp add: le_value_sum)

text \<open>The bytes \<open>52, 18\<close> are the 16-bit value \<open>0x1234\<close>.\<close>

theorem read_int_little_endian_witness:
  "LENGTH(16) = 8 * 2 \<and> 2 \<le> length [52, 18 :: byte]
   \<and> unat (read_int Little_endian [52, 18] :: 16 word) = 4660"
proof -
  have two: "{..<(2::nat)} = {0, 1}" by auto
  show ?thesis
    using read_int_little_endian [where 'a = 16 and n = 2 and data = "[52, 18]"]
    by (simp add: two)
qed

section \<open>The read position stays within the available bytes\<close>

lemma size_sub_le [simp]: "b \<le> a \<Longrightarrow> size_sub a b = a - b"
  by (simp add: size_sub_def)

lemma remaining_size_ok: "read_pos_ok g \<Longrightarrow> remaining_size g = available_decompressed_size g - read_pos g"
  by (simp add: remaining_size_def read_pos_ok_def)

lemma consume_bytes_Inr:
  "consume_bytes g n = Inr g' \<Longrightarrow> n \<le> remaining_size g \<and> g' = g\<lparr>read_pos := read_pos g + n\<rparr>"
  by (auto simp: consume_bytes_def split: if_splits)

lemma consume_bytes_read_pos_ok:
  "read_pos_ok g \<Longrightarrow> consume_bytes g n = Inr g' \<Longrightarrow> read_pos_ok g'"
  by (frule remaining_size_ok) (auto simp: read_pos_ok_def dest!: consume_bytes_Inr)

lemma reset_read_pos_ok: "read_pos_ok (reset g)"
  by (simp add: read_pos_ok_def reset_def)

lemma read_block_Inr:
  "read_block g h s = Inr (g', s') \<Longrightarrow>
     0 \<le> data_size h \<and>
     stream_read (nat (data_size h)) s = Inr (take (nat (data_size h)) (drop (gpos s) (content s)), s') \<and>
     g' = g\<lparr>h_compressed_blocks :=
             write_at (resize (length (h_compressed_blocks g) + nat (data_size h)) (h_compressed_blocks g))
               (compressed_size g) (take (nat (data_size h)) (drop (gpos s) (content s)))\<rparr>"
  by (auto simp: read_block_def stream_read_def split: if_splits sum.splits)

lemma decompress_fields [simp]:
  "read_pos (fst (decompress inflate g)) = read_pos g"
  "available_decompressed_size (fst (decompress inflate g)) = available_decompressed_size g"
  "h_compressed_offsets (fst (decompress inflate g)) = h_compressed_offsets g"
  "h_decompressed_offsets (fst (decompress inflate g)) = h_decompressed_offsets g"
  "h_compressed_blocks (fst (decompress inflate g)) = h_compressed_blocks g"
  "is_decompressed (fst (decompress inflate g))"
  by (simp_all add: decompress_def Let_def)

lemma decompress_read_pos_ok [simp]: "read_pos_ok (fst (decompress inflate g)) = read_pos_ok g"
  by (simp add: read_pos_ok_def)

lemma remaining_size_decompress [simp]: "remaining_size (fst (decompress inflate g)) = remaining_size g"
  by (simp add: remaining_size_def)

lemma read_compressed_blocks_read_pos_ok:
  assumes "read_compressed_blocks host n r = Inr r'"
  shows "reader_read_pos_ok r \<Longrightarrow> reader_read_pos_ok r'"
  using assms
proof (induction rule: read_compressed_blocks_induct)
  case (last r header s2 g1 s3 footer s4)
  then show ?case
    by (auto simp: reader_read_pos_ok_def read_pos_ok_def next_reader_def add_block_offsets_def
        dest!: read_block_Inr)
next
  case (step r header s2 g1 s3 footer s4 r')
  then show ?case
    by (auto simp: reader_read_pos_ok_def read_pos_ok_def next_reader_def add_block_offsets_def
        dest!: read_block_Inr)
qed (simp_all add: reader_read_pos_ok_def)

lemma read_next_compressed_chunk_read_pos_ok:
  "reader_read_pos_ok r \<Longrightarrow> read_next_compressed_chunk host n r = Inr r' \<Longrightarrow> reader_read_pos_ok r'"
  unfolding read_next_compressed_chunk_def
  by (erule read_compressed_blocks_read_pos_ok)
     (simp add: reader_read_pos_ok_def reset_read_pos_ok)

lemma get_next_chunk_read_pos_ok:
  assumes "reader_read_pos_ok r" and "get_next_chunk host inflate n r = Inr (chunk, r')"
  shows "reader_read_pos_ok r'"
proof (cases "n \<le> remaining_size (curr_blocks r)")
  case True
  with assms show ?thesis
    by (auto simp: get_next_chunk_def Let_def reader_read_pos_ok_def split: sum.splits
        dest: consume_bytes_read_pos_ok [rotated])
next
  case False
  with assms(2) obtain r1 p' c' where
    nx: "read_next_compressed_chunk host n r = Inr r1"
    and p: "consume_bytes (fst (decompress inflate (prev_blocks r1)))
              (remaining_size (prev_blocks r1)) = Inr p'"
    and c: "consume_bytes (fst (decompress inflate (curr_blocks r1)))
              (size_sub (min n (remaining_size (prev_blocks r1) + remaining_size (curr_blocks r1)))
                 (remaining_size (prev_blocks r1))) = Inr c'"
    and r': "r' = r1\<lparr>prev_blocks := p', curr_blocks := c'\<rparr>"
    by (auto simp: get_next_chunk_def Let_def split: sum.splits)
  from read_next_compressed_chunk_read_pos_ok [OF assms(1) nx]
  have "reader_read_pos_ok r1" .
  with p c r' show ?thesis
    by (auto simp: reader_read_pos_ok_def dest: consume_bytes_read_pos_ok [rotated])
qed

lemma skip_rest_read_pos_ok:
  "reader_read_pos_ok r \<Longrightarrow> skip_rest n r = Inr r' \<Longrightarrow> reader_read_pos_ok r'"
  by (auto simp: skip_rest_def reader_read_pos_ok_def split: sum.splits
      dest: consume_bytes_read_pos_ok [rotated])

lemma skip_bytes_preserves:
  assumes run: "skip_bytes host n r = Some (Inr r')"
    and c: "\<And>r g k. Q r \<Longrightarrow> consume_bytes (curr_blocks r) k = Inr g \<Longrightarrow> Q (r\<lparr>curr_blocks := g\<rparr>)"
    and nx: "\<And>host r r1 k. Q r \<Longrightarrow> read_next_compressed_chunk host k r = Inr r1 \<Longrightarrow> Q r1"
    and st: "\<And>r s. Q r \<Longrightarrow> Q (r\<lparr>data_stream := s\<rparr>)"
    and q: "Q r"
  shows "Q r'"
proof -
  have rest: "Q r2" if "Q r1" "skip_rest k r1 = Inr r2" for r1 r2 k
    using that c [of r1] by (auto simp: skip_rest_def split: sum.splits)
  have "Q r \<longrightarrow> (\<forall>r''. (Inr r' :: error + bgzip_data_chunk_reader) = Inr r'' \<longrightarrow> Q r'')"
  proof (rule skip_bytes.raw_induct
      [where P = "\<lambda>host n r y. Q r \<longrightarrow> (\<forall>r''. y = Inr r'' \<longrightarrow> Q r'')", OF _ run], goal_cases)
    case (1 skip host n r y)
    show ?case
    proof (intro impI allI)
      fix r' assume ok: "Q r" and y: "y = Inr r'"
      show "Q r'"
      proof (cases "remaining_size (curr_blocks r) < n")
        case False
        with 1(2) y ok show ?thesis
          by (auto dest: rest)
      next
        case True
        with 1(2) y obtain g r1 where
          g: "consume_bytes (curr_blocks r) (remaining_size (curr_blocks r)) = Inr g"
          and n1: "read_next_compressed_chunk host chunk_load_size (r\<lparr>curr_blocks := g\<rparr>) = Inr r1"
          by (auto split: sum.splits if_splits)
        from nx [OF c [OF ok g] n1] have ok1: "Q r1" .
        from True g n1 1(2) y ok1 st [OF ok1] 1(1) show ?thesis
          by (auto split: sum.splits if_splits dest: rest)
      qed
    qed
  qed
  with q show ?thesis by simp
qed

lemma skip_bytes_read_pos_ok:
  assumes run: "skip_bytes host n r = Some (Inr r')" and ok: "reader_read_pos_ok r"
  shows "reader_read_pos_ok r'"
  using run _ _ _ ok
proof (rule skip_bytes_preserves)
  show "reader_read_pos_ok (r\<lparr>curr_blocks := g\<rparr>)"
    if "reader_read_pos_ok r" "consume_bytes (curr_blocks r) k = Inr g" for r g k
    using that by (auto simp: reader_read_pos_ok_def dest: consume_bytes_read_pos_ok [rotated])
  show "reader_read_pos_ok r1"
    if "reader_read_pos_ok r" "read_next_compressed_chunk host k r = Inr r1" for host r r1 k
    using that by (rule read_next_compressed_chunk_read_pos_ok)
  show "reader_read_pos_ok (r\<lparr>data_stream := s\<rparr>)" if "reader_read_pos_ok r" for r s
    using that by (simp add: reader_read_pos_ok_def)
qed

section \<open>Facts about the sample stream\<close>

lemma replicate_numeral: "replicate (numeral k) x = x # replicate (pred_numeral k) x"
  by (simp add: numeral_eq_Suc)

lemmas eval_defs =
  read_header_def stream_read_def stream_peek_def stream_seekg_cur_def expected_header_def
  read_extra_subfields.simps read_int_def object_value_def read_footer_def
  read_block_def data_size_def add_block_offsets_def compressed_size_def decompressed_size_def
  resize_def write_at_def reset_def new_decompression_blocks_def
  read_compressed_blocks.simps read_next_compressed_chunk_def new_bgzip_data_chunk_reader_def
  chunk_load_size_def consume_bytes_def remaining_size_def size_sub_def replicate_numeral upt_rec

lemma demo_reader_value:
  "demo_reader =
     \<lparr>data_stream = \<lparr>content = demo_content, gpos = 95, eofbit = True\<rparr>,
      prev_blocks = new_decompression_blocks,
      curr_blocks = new_decompression_blocks
        \<lparr>h_compressed_blocks := [1, 3, 0, 252, 255, 97, 98, 99, 1, 2, 0, 253, 255, 100, 101, 3, 0],
         h_compressed_offsets := [0, 8, 15, 17],
         h_decompressed_offsets := [0, 3, 5, 5],
         max_decompressed_size := 3,
         available_decompressed_size := 5\<rparr>,
      local_end = 65535, compressed_pos = 95, compressed_end = 281474976710655\<rparr>"
  by (simp add: demo_reader_def eval_defs demo_stream_def demo_content_def)

lemma demo_reader_new:
  "new_bgzip_data_chunk_reader Little_endian demo_stream 0 0xFFFFFFFFFFFFFFFF = Inr demo_reader"
  unfolding demo_reader_value
  by (simp add: eval_defs demo_stream_def demo_content_def)

lemma demo_reader_remaining: "remaining_size (curr_blocks demo_reader) = 5"
  by (simp add: demo_reader_value remaining_size_def new_decompression_blocks_def)

lemma Inr_projr: "\<not> isl x \<Longrightarrow> x = Inr (projr x)"
  by (cases x) simp_all

lemma demo_get_next_chunk:
  "get_next_chunk Little_endian stored_inflate 4 demo_reader =
     Inr (fst (projr (get_next_chunk Little_endian stored_inflate 4 demo_reader)),
          snd (projr (get_next_chunk Little_endian stored_inflate 4 demo_reader)))"
proof -
  have "\<not> isl (get_next_chunk Little_endian stored_inflate 4 demo_reader)"
    by (simp add: get_next_chunk_def Let_def demo_reader_remaining consume_bytes_def)
  from Inr_projr [OF this] show ?thesis by simp
qed

lemma demo_skip_bytes:
  "skip_bytes Little_endian 4 demo_reader =
     Some (Inr (projr (the (skip_bytes Little_endian 4 demo_reader))))"
  by (subst (1 2) skip_bytes.simps)
     (simp add: demo_reader_remaining skip_rest_def consume_bytes_def)

lemma demo_read_next:
  "read_next_compressed_chunk Little_endian 4 demo_reader =
     Inr (projr (read_next_compressed_chunk Little_endian 4 demo_reader))"
  unfolding demo_reader_value by (simp add: eval_defs)

section \<open>The invariant of the read position\<close>

lemma new_bgzip_data_chunk_reader_read_pos_ok:
  assumes "new_bgzip_data_chunk_reader host s vb ve = Inr r"
  shows "reader_read_pos_ok r"
proof -
  from assms obtain s1 r1 where
    nx: "read_next_compressed_chunk host chunk_load_size
           \<lparr>data_stream = s1, prev_blocks = new_decompression_blocks,
            curr_blocks = new_decompression_blocks,
            local_end = unat (ve AND 0xFFFF), compressed_pos = unat (drop_bit 16 vb),
            compressed_end = unat (drop_bit 16 ve)\<rparr> = Inr r1"
    and r: "r = r1 \<or> (\<exists>g. consume_bytes (curr_blocks r1) (unat (vb AND 0xFFFF)) = Inr g
                          \<and> r = r1\<lparr>curr_blocks := g\<rparr>)"
    by (auto simp: new_bgzip_data_chunk_reader_def split: sum.splits if_splits)
  have "reader_read_pos_ok r1"
    by (rule read_next_compressed_chunk_read_pos_ok [OF _ nx])
       (simp add: reader_read_pos_ok_def read_pos_ok_def new_decompression_blocks_def)
  with r show ?thesis
    by (auto simp: reader_read_pos_ok_def dest: consume_bytes_read_pos_ok [rotated])
qed

text \<open>
  C9: the invariant \<open>read_pos \<le> available_decompressed_size\<close> holds for both groups of
  a reader after its construction, and \<open>consume_bytes\<close>, \<open>reset\<close>,
  \<open>read_next_compressed_chunk\<close>, \<open>get_next_chunk\<close> and \<open>skip_bytes\<close> preserve it;
  \<open>consume_bytes\<close> rejects a size that exceeds the unread bytes with the error
  "out of bounds".
\<close>

theorem read_pos_le_available:
  "(new_bgzip_data_chunk_reader host s vb ve = Inr r0 \<longrightarrow> reader_read_pos_ok r0)
   \<and> (read_pos_ok g \<and> consume_bytes g n = Inr g' \<longrightarrow> read_pos_ok g')
   \<and> read_pos_ok (reset g)
   \<and> (reader_read_pos_ok r \<and> read_next_compressed_chunk host k r = Inr r1
        \<longrightarrow> reader_read_pos_ok r1)
   \<and> (reader_read_pos_ok r \<and> get_next_chunk host inflate k r = Inr (chunk, r2)
        \<longrightarrow> reader_read_pos_ok r2)
   \<and> (reader_read_pos_ok r \<and> skip_bytes host k r = Some (Inr r3) \<longrightarrow> reader_read_pos_ok r3)
   \<and> (read_pos_ok g \<and> available_decompressed_size g - read_pos g < m
        \<longrightarrow> consume_bytes g m = Inl Out_of_bounds)"
proof -
  have "consume_bytes g m = Inl Out_of_bounds"
    if "read_pos_ok g" "available_decompressed_size g - read_pos g < m"
    using that by (simp add: consume_bytes_def remaining_size_ok)
  then show ?thesis
    using new_bgzip_data_chunk_reader_read_pos_ok [of host s vb ve r0]
      consume_bytes_read_pos_ok [of g n g'] reset_read_pos_ok [of g]
      read_next_compressed_chunk_read_pos_ok [of r host k r1]
      get_next_chunk_read_pos_ok [of r host inflate k chunk r2]
      skip_bytes_read_pos_ok [of host k r r3]
    by blast
qed

text \<open>The invariant on the reader of the sample file, which holds 5 unread bytes.\<close>

theorem read_pos_le_available_witness:
  "new_bgzip_data_chunk_reader Little_endian demo_stream 0 0xFFFFFFFFFFFFFFFF = Inr demo_reader
   \<and> reader_read_pos_ok demo_reader
   \<and> consume_bytes (curr_blocks demo_reader) 2 = Inr ((curr_blocks demo_reader)\<lparr>read_pos := 2\<rparr>)
   \<and> read_pos_ok ((curr_blocks demo_reader)\<lparr>read_pos := 2\<rparr>)
   \<and> read_pos_ok (reset (curr_blocks demo_reader))
   \<and> reader_read_pos_ok (projr (read_next_compressed_chunk Little_endian 4 demo_reader))
   \<and> reader_read_pos_ok (snd (projr (get_next_chunk Little_endian stored_inflate 4 demo_reader)))
   \<and> reader_read_pos_ok (projr (the (skip_bytes Little_endian 4 demo_reader)))
   \<and> available_decompressed_size (curr_blocks demo_reader)
        - read_pos (curr_blocks demo_reader) < 6
   \<and> consume_bytes (curr_blocks demo_reader) 6 = Inl Out_of_bounds"
proof -
  note t = read_pos_le_available
    [where host = Little_endian and s = demo_stream and vb = 0 and ve = "0xFFFFFFFFFFFFFFFF"
       and ?r0.0 = demo_reader and g = "curr_blocks demo_reader" and n = 2
       and g' = "(curr_blocks demo_reader)\<lparr>read_pos := 2\<rparr>" and r = demo_reader and k = 4
       and ?r1.0 = "projr (read_next_compressed_chunk Little_endian 4 demo_reader)"
       and inflate = stored_inflate
       and chunk = "fst (projr (get_next_chunk Little_endian stored_inflate 4 demo_reader))"
       and ?r2.0 = "snd (projr (get_next_chunk Little_endian stored_inflate 4 demo_reader))"
       and ?r3.0 = "projr (the (skip_bytes Little_endian 4 demo_reader))" and m = 6]
  have c: "consume_bytes (curr_blocks demo_reader) 2 = Inr ((curr_blocks demo_reader)\<lparr>read_pos := 2\<rparr>)"
    by (simp add: consume_bytes_def demo_reader_remaining)
       (simp add: demo_reader_value new_decompression_blocks_def)
  have a: "available_decompressed_size (curr_blocks demo_reader)
        - read_pos (curr_blocks demo_reader) < 6"
    by (simp add: demo_reader_value new_decompression_blocks_def)
  from t demo_reader_new demo_read_next demo_get_next_chunk demo_skip_bytes c a
  show ?thesis
    unfolding reader_read_pos_ok_def by blast
qed

section \<open>The invariant of the offset tables\<close>

lemma offsets_ok_snoc:
  assumes "offsets_ok xs" and "last xs \<le> x"
  shows "offsets_ok (xs @ [x])"
proof -
  from assms(1) have ne: "xs \<noteq> []" and s: "sorted xs" and z: "xs ! 0 = 0"
    by (auto simp: offsets_ok_def)
  have "y \<le> last xs" if "y \<in> set xs" for y
  proof -
    from that obtain i where i: "i < length xs" "xs ! i = y" by (auto simp: in_set_conv_nth)
    with s ne have "xs ! i \<le> xs ! (length xs - 1)"
      by (intro sorted_nth_mono) auto
    with i ne show ?thesis by (simp add: last_conv_nth)
  qed
  with assms(2) s ne z show ?thesis
    by (force simp: offsets_ok_def sorted_append nth_append)
qed

lemma offsets_ok_resize: "offsets_ok xs \<Longrightarrow> offsets_ok (resize (Suc 0) xs)"
  by (cases xs) (auto simp: offsets_ok_def resize_def)

lemma tables_ok_new: "tables_ok new_decompression_blocks"
  by (simp add: tables_ok_def offsets_ok_def new_decompression_blocks_def)

lemma tables_ok_reset: "tables_ok g \<Longrightarrow> tables_ok (reset g)"
proof -
  assume g: "tables_ok g"
  then have "length (resize 1 (h_compressed_offsets g)) = 1"
    "length (resize 1 (h_decompressed_offsets g)) = 1"
    by (auto simp: tables_ok_def offsets_ok_def resize_def)
  with g show ?thesis
    by (simp add: tables_ok_def reset_def offsets_ok_resize)
qed

lemma tables_ok_add_block_offsets:
  assumes "tables_ok g" and "0 \<le> data_size header"
  shows "tables_ok (add_block_offsets g header footer)"
  using assms
  by (auto simp: tables_ok_def add_block_offsets_def compressed_size_def decompressed_size_def
      intro!: offsets_ok_snoc)

lemma tables_ok_read_block_add:
  assumes "tables_ok g" and "read_block g header s = Inr (g1, s1)"
  shows "tables_ok (add_block_offsets g1 header footer)"
proof -
  from read_block_Inr [OF assms(2)] assms(1) have "tables_ok g1" "0 \<le> data_size header"
    by (auto simp: tables_ok_def)
  then show ?thesis by (rule tables_ok_add_block_offsets)
qed

lemma tables_ok_upd [simp]:
  "tables_ok (g\<lparr>available_decompressed_size := a\<rparr>) = tables_ok g"
  "tables_ok (g\<lparr>read_pos := p\<rparr>) = tables_ok g"
  by (simp_all add: tables_ok_def)

lemma tables_ok_decompress [simp]: "tables_ok (fst (decompress inflate g)) = tables_ok g"
  by (simp add: tables_ok_def)

lemma tables_ok_consume_bytes: "tables_ok g \<Longrightarrow> consume_bytes g n = Inr g' \<Longrightarrow> tables_ok g'"
  by (auto dest!: consume_bytes_Inr)

lemma tables_ok_well_defined:
  assumes "tables_ok g"
  shows "num_blocks g + 1 = length (h_compressed_offsets g)"
    and "compressed_size g = h_compressed_offsets g ! num_blocks g"
    and "decompressed_size g = h_decompressed_offsets g ! num_blocks g"
proof -
  from assms have ne: "h_compressed_offsets g \<noteq> []" "h_decompressed_offsets g \<noteq> []"
    and len: "length (h_compressed_offsets g) = length (h_decompressed_offsets g)"
    by (auto simp: tables_ok_def offsets_ok_def)
  from ne have n: "num_blocks g = length (h_compressed_offsets g) - 1"
    by (cases "h_compressed_offsets g") (simp_all add: num_blocks_def)
  from ne n show "num_blocks g + 1 = length (h_compressed_offsets g)"
    by (cases "h_compressed_offsets g") simp_all
  from ne n show "compressed_size g = h_compressed_offsets g ! num_blocks g"
    by (simp add: compressed_size_def last_conv_nth)
  from ne n len show "decompressed_size g = h_decompressed_offsets g ! num_blocks g"
    by (simp add: decompressed_size_def last_conv_nth)
qed

lemma read_compressed_blocks_tables_ok:
  assumes "read_compressed_blocks host n r = Inr r'"
  shows "reader_tables_ok r \<Longrightarrow> reader_tables_ok r'"
  using assms
proof (induction rule: read_compressed_blocks_induct)
  case (last r header s2 g1 s3 footer s4)
  then show ?case
    by (auto simp: reader_tables_ok_def next_reader_def intro: tables_ok_read_block_add)
next
  case (step r header s2 g1 s3 footer s4 r')
  then show ?case
    by (auto simp: reader_tables_ok_def next_reader_def intro: tables_ok_read_block_add)
qed (simp_all add: reader_tables_ok_def)

lemma read_next_compressed_chunk_tables_ok:
  "reader_tables_ok r \<Longrightarrow> read_next_compressed_chunk host n r = Inr r' \<Longrightarrow> reader_tables_ok r'"
  unfolding read_next_compressed_chunk_def
  by (erule read_compressed_blocks_tables_ok)
     (simp add: reader_tables_ok_def tables_ok_reset)

lemma get_next_chunk_tables_ok:
  assumes "reader_tables_ok r" and "get_next_chunk host inflate n r = Inr (chunk, r')"
  shows "reader_tables_ok r'"
proof (cases "n \<le> remaining_size (curr_blocks r)")
  case True
  with assms show ?thesis
    by (auto simp: get_next_chunk_def Let_def reader_tables_ok_def split: sum.splits
        dest!: consume_bytes_Inr)
next
  case False
  with assms(2) obtain r1 p' c' where
    nx: "read_next_compressed_chunk host n r = Inr r1"
    and p: "consume_bytes (fst (decompress inflate (prev_blocks r1)))
              (remaining_size (prev_blocks r1)) = Inr p'"
    and c: "consume_bytes (fst (decompress inflate (curr_blocks r1)))
              (size_sub (min n (remaining_size (prev_blocks r1) + remaining_size (curr_blocks r1)))
                 (remaining_size (prev_blocks r1))) = Inr c'"
    and r': "r' = r1\<lparr>prev_blocks := p', curr_blocks := c'\<rparr>"
    by (auto simp: get_next_chunk_def Let_def split: sum.splits)
  from read_next_compressed_chunk_tables_ok [OF assms(1) nx]
  have "reader_tables_ok r1" .
  with p c r' show ?thesis
    by (auto simp: reader_tables_ok_def dest!: consume_bytes_Inr)
qed

lemma skip_bytes_tables_ok:
  assumes run: "skip_bytes host n r = Some (Inr r')" and ok: "reader_tables_ok r"
  shows "reader_tables_ok r'"
  using run _ _ _ ok
proof (rule skip_bytes_preserves)
  show "reader_tables_ok (r\<lparr>curr_blocks := g\<rparr>)"
    if "reader_tables_ok r" "consume_bytes (curr_blocks r) k = Inr g" for r g k
    using that by (auto simp: reader_tables_ok_def dest!: consume_bytes_Inr)
  show "reader_tables_ok r1"
    if "reader_tables_ok r" "read_next_compressed_chunk host k r = Inr r1" for host r r1 k
    using that by (rule read_next_compressed_chunk_tables_ok)
  show "reader_tables_ok (r\<lparr>data_stream := s\<rparr>)" if "reader_tables_ok r" for r s
    using that by (simp add: reader_tables_ok_def)
qed

lemma new_bgzip_data_chunk_reader_tables_ok:
  assumes "new_bgzip_data_chunk_reader host s vb ve = Inr r"
  shows "reader_tables_ok r"
proof -
  from assms obtain s1 r1 where
    nx: "read_next_compressed_chunk host chunk_load_size
           \<lparr>data_stream = s1, prev_blocks = new_decompression_blocks,
            curr_blocks = new_decompression_blocks,
            local_end = unat (ve AND 0xFFFF), compressed_pos = unat (drop_bit 16 vb),
            compressed_end = unat (drop_bit 16 ve)\<rparr> = Inr r1"
    and r: "r = r1 \<or> (\<exists>g. consume_bytes (curr_blocks r1) (unat (vb AND 0xFFFF)) = Inr g
                          \<and> r = r1\<lparr>curr_blocks := g\<rparr>)"
    by (auto simp: new_bgzip_data_chunk_reader_def split: sum.splits if_splits)
  have "reader_tables_ok r1"
    by (rule read_next_compressed_chunk_tables_ok [OF _ nx])
       (simp add: reader_tables_ok_def tables_ok_new)
  with r show ?thesis
    by (auto simp: reader_tables_ok_def dest!: consume_bytes_Inr)
qed


text \<open>
  C10: the host offset tables of a group are as long as each other, hold at least one
  entry, start with \<open>0\<close> and are nondecreasing, so that \<open>num_blocks\<close>,
  \<open>compressed_size\<close> and \<open>decompressed_size\<close> are the index and the values of the last
  entries.  The constructor of a group establishes this, \<open>reset\<close> preserves it, and so
  does \<open>add_block_offsets\<close> for a header whose \<open>data_size\<close> is not negative, which is
  the case after every \<open>read_block\<close> that returns; hence it holds for both groups of a
  reader after its construction and after every operation.
\<close>

theorem offset_tables_invariant:
  "tables_ok new_decompression_blocks
   \<and> (tables_ok g \<longrightarrow>
        tables_ok (reset g)
        \<and> num_blocks g + 1 = length (h_compressed_offsets g)
        \<and> compressed_size g = h_compressed_offsets g ! num_blocks g
        \<and> decompressed_size g = h_decompressed_offsets g ! num_blocks g)
   \<and> (tables_ok g \<and> 0 \<le> data_size header \<longrightarrow> tables_ok (add_block_offsets g header footer))
   \<and> (tables_ok g \<and> read_block g header s = Inr (g1, s1) \<longrightarrow>
        0 \<le> data_size header \<and> tables_ok (add_block_offsets g1 header footer))
   \<and> (new_bgzip_data_chunk_reader host s0 vb ve = Inr r0 \<longrightarrow> reader_tables_ok r0)
   \<and> (reader_tables_ok r \<and> read_next_compressed_chunk host k r = Inr r1 \<longrightarrow> reader_tables_ok r1)
   \<and> (reader_tables_ok r \<and> get_next_chunk host inflate k r = Inr (chunk, r2)
        \<longrightarrow> reader_tables_ok r2)
   \<and> (reader_tables_ok r \<and> skip_bytes host k r = Some (Inr r3) \<longrightarrow> reader_tables_ok r3)"
  using tables_ok_new tables_ok_reset [of g] tables_ok_well_defined [of g]
    tables_ok_add_block_offsets [of g header footer]
    tables_ok_read_block_add [of g header s g1 s1 footer]
    read_block_Inr [of g header s g1 s1]
    new_bgzip_data_chunk_reader_tables_ok [of host s0 vb ve r0]
    read_next_compressed_chunk_tables_ok [of r host k r1]
    get_next_chunk_tables_ok [of r host inflate k chunk r2]
    skip_bytes_tables_ok [of host k r r3]
  by blast

lemma demo_read_block:
  "read_block (curr_blocks demo_reader) \<lparr>block_size = 34, extra_length = 6\<rparr>
     (demo_stream\<lparr>gpos := 18\<rparr>) =
   Inr (fst (projr (read_block (curr_blocks demo_reader) \<lparr>block_size = 34, extra_length = 6\<rparr>
                      (demo_stream\<lparr>gpos := 18\<rparr>))),
        snd (projr (read_block (curr_blocks demo_reader) \<lparr>block_size = 34, extra_length = 6\<rparr>
                      (demo_stream\<lparr>gpos := 18\<rparr>))))"
proof -
  have "\<not> isl (read_block (curr_blocks demo_reader) \<lparr>block_size = 34, extra_length = 6\<rparr>
                 (demo_stream\<lparr>gpos := 18\<rparr>))"
    by (simp add: read_block_def data_size_def stream_read_def demo_stream_def demo_content_def)
  from Inr_projr [OF this] show ?thesis by simp
qed

text \<open>
  The tables of the sample reader, and of its current group after the first block of the
  file has been added once more.
\<close>

theorem offset_tables_invariant_witness:
  "new_bgzip_data_chunk_reader Little_endian demo_stream 0 0xFFFFFFFFFFFFFFFF = Inr demo_reader
   \<and> reader_tables_ok demo_reader
   \<and> h_compressed_offsets (curr_blocks demo_reader) = [0, 8, 15, 17]
   \<and> h_decompressed_offsets (curr_blocks demo_reader) = [0, 3, 5, 5]
   \<and> tables_ok (reset (curr_blocks demo_reader))
   \<and> num_blocks (curr_blocks demo_reader) = 3
   \<and> compressed_size (curr_blocks demo_reader) = 17
   \<and> decompressed_size (curr_blocks demo_reader) = 5
   \<and> 0 \<le> data_size \<lparr>block_size = 34, extra_length = 6\<rparr>
   \<and> tables_ok (add_block_offsets (curr_blocks demo_reader)
                  \<lparr>block_size = 34, extra_length = 6\<rparr> \<lparr>decompressed_size_f = 3\<rparr>)
   \<and> tables_ok (add_block_offsets
         (fst (projr (read_block (curr_blocks demo_reader) \<lparr>block_size = 34, extra_length = 6\<rparr>
                        (demo_stream\<lparr>gpos := 18\<rparr>))))
         \<lparr>block_size = 34, extra_length = 6\<rparr> \<lparr>decompressed_size_f = 3\<rparr>)
   \<and> reader_tables_ok (projr (read_next_compressed_chunk Little_endian 4 demo_reader))
   \<and> reader_tables_ok (snd (projr (get_next_chunk Little_endian stored_inflate 4 demo_reader)))
   \<and> reader_tables_ok (projr (the (skip_bytes Little_endian 4 demo_reader)))"
proof -
  note t = offset_tables_invariant
    [where g = "curr_blocks demo_reader" and header = "\<lparr>block_size = 34, extra_length = 6\<rparr>"
       and footer = "\<lparr>decompressed_size_f = 3\<rparr>" and s = "demo_stream\<lparr>gpos := 18\<rparr>"
       and ?g1.0 = "fst (projr (read_block (curr_blocks demo_reader)
                          \<lparr>block_size = 34, extra_length = 6\<rparr> (demo_stream\<lparr>gpos := 18\<rparr>)))"
       and ?s1.0 = "snd (projr (read_block (curr_blocks demo_reader)
                          \<lparr>block_size = 34, extra_length = 6\<rparr> (demo_stream\<lparr>gpos := 18\<rparr>)))"
       and host = Little_endian and ?s0.0 = demo_stream and vb = 0 and ve = "0xFFFFFFFFFFFFFFFF"
       and ?r0.0 = demo_reader and r = demo_reader and k = 4
       and ?r1.0 = "projr (read_next_compressed_chunk Little_endian 4 demo_reader)"
       and inflate = stored_inflate
       and chunk = "fst (projr (get_next_chunk Little_endian stored_inflate 4 demo_reader))"
       and ?r2.0 = "snd (projr (get_next_chunk Little_endian stored_inflate 4 demo_reader))"
       and ?r3.0 = "projr (the (skip_bytes Little_endian 4 demo_reader))"]
  have v: "h_compressed_offsets (curr_blocks demo_reader) = [0, 8, 15, 17]"
    "h_decompressed_offsets (curr_blocks demo_reader) = [0, 3, 5, 5]"
    by (simp_all add: demo_reader_value new_decompression_blocks_def)
  have n: "num_blocks (curr_blocks demo_reader) = 3"
    "compressed_size (curr_blocks demo_reader) = 17"
    "decompressed_size (curr_blocks demo_reader) = 5"
    by (simp_all add: v num_blocks_def compressed_size_def decompressed_size_def size_sub_def)
  have d: "0 \<le> data_size \<lparr>block_size = 34, extra_length = 6\<rparr>"
    by (simp add: data_size_def)
  from t demo_reader_new demo_read_next demo_get_next_chunk demo_skip_bytes demo_read_block v n d
  show ?thesis
    unfolding reader_tables_ok_def by blast
qed

section \<open>Decompression happens once\<close>

lemma decompress_launches:
  "snd (decompress inflate g) = (if is_decompressed g \<or> decompressed_size g = 0 then 0 else 1)"
  by (simp add: decompress_def Let_def)

text \<open>
  C6: \<open>decompress\<close> is idempotent: the first call on a group that holds data launches
  the backend once and marks the group decompressed; a second call returns the same
  group, device buffers included, and launches the backend zero times.  \<open>reset\<close> clears the mark; \<open>read_block\<close>, \<open>add_block_offsets\<close> and
  \<open>consume_bytes\<close> leave it as it is, and so does the update of
  \<open>available_decompressed_size\<close> in \<open>read_next_compressed_chunk\<close>.
\<close>

theorem decompress_idempotent:
  "is_decompressed (fst (decompress inflate g))
   \<and> decompress inflate (fst (decompress inflate g)) = (fst (decompress inflate g), 0)
   \<and> (is_decompressed g \<longrightarrow> decompress inflate g = (g, 0))
   \<and> (\<not> is_decompressed g \<and> 0 < decompressed_size g \<longrightarrow> snd (decompress inflate g) = 1)
   \<and> \<not> is_decompressed (reset g)
   \<and> is_decompressed (add_block_offsets g header footer) = is_decompressed g
   \<and> is_decompressed (g\<lparr>available_decompressed_size := a\<rparr>) = is_decompressed g
   \<and> (read_block g header s = Inr (g1, s1) \<longrightarrow> is_decompressed g1 = is_decompressed g)
   \<and> (consume_bytes g n = Inr g2 \<longrightarrow> is_decompressed g2 = is_decompressed g)"
proof -
  have "decompress inflate g' = (g', 0)" if "is_decompressed g'" for g'
    using that by (simp add: decompress_def)
  then show ?thesis
    using read_block_Inr [of g header s g1 s1] consume_bytes_Inr [of g n g2]
    by (auto simp: reset_def add_block_offsets_def decompress_launches)
qed

text \<open>
  The current group of the sample reader, decompressed: the second call changes nothing.
\<close>

theorem decompress_idempotent_witness:
  "\<not> is_decompressed (curr_blocks demo_reader)
   \<and> 0 < decompressed_size (curr_blocks demo_reader)
   \<and> snd (decompress stored_inflate (curr_blocks demo_reader)) = 1
   \<and> is_decompressed (fst (decompress stored_inflate (curr_blocks demo_reader)))
   \<and> decompress stored_inflate (fst (decompress stored_inflate (curr_blocks demo_reader)))
       = (fst (decompress stored_inflate (curr_blocks demo_reader)), 0)
   \<and> consume_bytes (fst (decompress stored_inflate (curr_blocks demo_reader))) 2
       = Inr ((fst (decompress stored_inflate (curr_blocks demo_reader)))\<lparr>read_pos := 2\<rparr>)
   \<and> is_decompressed ((fst (decompress stored_inflate (curr_blocks demo_reader)))\<lparr>read_pos := 2\<rparr>)
   \<and> is_decompressed
        (fst (projr (read_block (fst (decompress stored_inflate (curr_blocks demo_reader)))
                       \<lparr>block_size = 34, extra_length = 6\<rparr> (demo_stream\<lparr>gpos := 18\<rparr>))))
   \<and> \<not> is_decompressed (reset (fst (decompress stored_inflate (curr_blocks demo_reader))))"
proof -
  let ?g = "fst (decompress stored_inflate (curr_blocks demo_reader))"
  let ?h = "\<lparr>block_size = 34, extra_length = 6\<rparr>"
  let ?s = "demo_stream\<lparr>gpos := 18\<rparr>"
  note t = decompress_idempotent
    [where inflate = stored_inflate and g = ?g and n = 2 and ?g2.0 = "?g\<lparr>read_pos := 2\<rparr>"
       and header = ?h and s = ?s
       and ?g1.0 = "fst (projr (read_block ?g ?h ?s))"
       and ?s1.0 = "snd (projr (read_block ?g ?h ?s))"]
  note u = decompress_idempotent [where inflate = stored_inflate and g = "curr_blocks demo_reader"]
  have d: "is_decompressed ?g" by simp
  have e: "\<not> is_decompressed (curr_blocks demo_reader)"
    "0 < decompressed_size (curr_blocks demo_reader)"
    by (simp_all add: demo_reader_value new_decompression_blocks_def decompressed_size_def)
  have c: "consume_bytes ?g 2 = Inr (?g\<lparr>read_pos := 2\<rparr>)"
    by (simp add: consume_bytes_def demo_reader_remaining)
       (simp add: demo_reader_value new_decompression_blocks_def)
  have "\<not> isl (read_block ?g ?h ?s)"
    by (simp add: read_block_def data_size_def stream_read_def demo_stream_def demo_content_def)
  from Inr_projr [OF this]
  have b: "read_block ?g ?h ?s = Inr (fst (projr (read_block ?g ?h ?s)), snd (projr (read_block ?g ?h ?s)))"
    by simp
  from t u d c b e show ?thesis by blast
qed

section \<open>The local offset of \<open>virtual_begin\<close>\<close>

text \<open>
  C2 (the code at two inputs): the constructor compares the local offset with the
  compressed size of the first block, \<open>h_compressed_offsets[1]\<close>, and not with its
  decompressed size.  In the first file the first block has 5 compressed and 10
  decompressed bytes: the local offset 7 is valid and the construction fails.  In the
  sample file the first block has 8 compressed and 3 decompressed bytes: the local offset
  4 is beyond the first block and the construction succeeds, with 4 bytes consumed.
\<close>

theorem local_offset_compared_with_compressed_size:
  "new_bgzip_data_chunk_reader Little_endian deflate_stream 7 0xFFFFFFFFFFFFFFFF
     = Inl Local_offset_out_of_bounds
   \<and> map_sum id (\<lambda>r. (h_compressed_offsets (curr_blocks r), h_decompressed_offsets (curr_blocks r)))
        (new_bgzip_data_chunk_reader Little_endian deflate_stream 0 0xFFFFFFFFFFFFFFFF)
     = Inr ([0, 5, 7], [0, 10, 10])
   \<and> map_sum id (\<lambda>r. (h_compressed_offsets (curr_blocks r), h_decompressed_offsets (curr_blocks r),
                       read_pos (curr_blocks r)))
        (new_bgzip_data_chunk_reader Little_endian demo_stream 4 0xFFFFFFFFFFFFFFFF)
     = Inr ([0, 8, 15, 17], [0, 3, 5, 5], 4)"
  by (simp add: eval_defs deflate_stream_def deflate_content_def demo_stream_def demo_content_def)

section \<open>Parsing a header\<close>

lemma le_value_u16_bytes: "n < 65536 \<Longrightarrow> le_value (u16_bytes n) = n"
proof -
  assume n: "n < 65536"
  then have "n div 256 < 256" by simp
  then have "unat (word_of_nat (n div 256) :: byte) = n div 256"
    by (simp add: unsigned_of_nat take_bit_nat_eq_self)
  moreover have "unat (word_of_nat (n mod 256) :: byte) = n mod 256"
    by (simp add: unsigned_of_nat take_bit_nat_eq_self)
  ultimately show ?thesis by (simp add: u16_bytes_def)
qed

lemma length_u16_bytes [simp]: "length (u16_bytes n) = 2"
  by (simp add: u16_bytes_def)

lemma read_int_16_append:
  "length bs = 2 \<Longrightarrow> (read_int Little_endian (bs @ xs) :: 16 word) = word_of_nat (le_value bs)"
  by (simp add: read_int_def object_value_def)

lemma read_int_u16_bytes:
  "(read_int Little_endian (u16_bytes n @ xs) :: 16 word) = word_of_nat (le_value (u16_bytes n))"
  by (rule read_int_16_append) simp

lemma unat_read_int_u16_bytes:
  "n < 65536 \<Longrightarrow> unat (read_int Little_endian (u16_bytes n @ xs) :: 16 word) = n"
  by (simp add: read_int_u16_bytes le_value_u16_bytes unsigned_of_nat take_bit_nat_eq_self)

lemma stream_read_at:
  assumes "content s = pre @ bs @ post" "gpos s = length pre" "\<not> eofbit s" "length bs = n"
  shows "stream_read n s = Inr (bs, s\<lparr>gpos := length pre + n\<rparr>)"
  using assms by (simp add: stream_read_def)


lemma clear_eofbit [simp]: "\<not> eofbit s \<Longrightarrow> s\<lparr>eofbit := False\<rparr> = s"
  by (cases s) simp

lemma enc_subfield_length: "length (enc_subfield sf) = 4 + length (snd (snd sf))"
  by (simp add: enc_subfield_def)

lemma unat_16_add:
  fixes a b :: "16 word"
  assumes "unat a + unat b < 65536"
  shows "unat (a + b) = unat a + unat b"
  using assms unat_add_lem [of a b] by simp

lemma read_extra_subfields_skip:
  fixes xlen eo :: "16 word"
  assumes c: "content s = pre @ enc_subfield sf @ post"
    and g: "gpos s = length pre" and e: "\<not> eofbit s"
    and nb: "\<not> is_size_subfield sf"
    and x: "unat eo + 4 + length (snd (snd sf)) \<le> unat xlen"
  shows "read_extra_subfields Little_endian xlen eo s =
         read_extra_subfields Little_endian xlen (eo + 4 + word_of_nat (length (snd (snd sf))))
           (s\<lparr>gpos := length pre + length (enc_subfield sf)\<rparr>)"
proof -
  obtain t1 t2 p where sf: "sf = (t1, t2, p)" by (cases sf) auto
  have "unat xlen < 2 ^ LENGTH(16)" by (rule unsigned_less)
  with x sf have p: "length p < 65536" by simp
  have lt: "eo < xlen" using x by (simp add: word_less_nat_alt)
  have rem: "\<not> uint xlen - uint eo < 4"
    using x uint_nat [of xlen] uint_nat [of eo] by linarith
  have rd: "stream_read 4 s = Inr ([t1, t2] @ u16_bytes (length p), s\<lparr>gpos := length pre + 4\<rparr>)"
    using c g e sf
    by (intro stream_read_at [where post = "p @ post"]) (simp_all add: enc_subfield_def)
  have sz: "(read_int Little_endian (drop 2 ([t1, t2] @ u16_bytes (length p))) :: 16 word)
            = word_of_nat (length p)"
    using read_int_u16_bytes [of "length p" "[]"] p by (simp add: le_value_u16_bytes)
  have "unat (word_of_nat (length p) :: 16 word) = length p"
    using p by (simp add: unsigned_of_nat take_bit_nat_eq_self)
  then have usz: "uint (word_of_nat (length p) :: 16 word) = int (length p)"
    using uint_nat [of "word_of_nat (length p) :: 16 word"] by simp
  have tag: "\<not> (([t1, t2] @ u16_bytes (length p)) ! 0 = 66 \<and> ([t1, t2] @ u16_bytes (length p)) ! 1 = 67)"
    using nb sf by (simp add: is_size_subfield_def)
  have sk: "stream_seekg_cur (int (length p)) (s\<lparr>gpos := length pre + 4\<rparr>)
            = Inr (s\<lparr>gpos := length pre + (4 + length p)\<rparr>)"
    using e by (simp add: stream_seekg_cur_def nat_add_distrib)
  show ?thesis
    apply (subst read_extra_subfields.simps)
    apply (simp only: lt rem if_True if_False rd sum.case prod.case tag sz usz sk)
    apply (simp add: sf enc_subfield_length)
    done
qed


lemma le_value_two_less: "length bs = 2 \<Longrightarrow> le_value bs < 65536"
  using le_value_less [of bs] by simp

lemma read_extra_subfields_rest:
  fixes xlen eo :: "16 word"
  assumes c: "content s = pre @ rest @ post"
    and g: "gpos s = length pre" and e: "\<not> eofbit s"
    and x: "unat xlen = unat eo + length rest"
    and r: "rest_ok rest"
  shows "read_extra_subfields Little_endian xlen eo s =
         scan_rest (unat xlen) rest (s\<lparr>gpos := length pre + length rest\<rparr>)"
proof (cases "rest = []")
  case True
  with x have "\<not> eo < xlen" by (simp add: word_less_nat_alt)
  with True show ?thesis
    by (subst read_extra_subfields.simps) (simp add: scan_rest_def)
next
  case ne: False
  with x have lt: "eo < xlen" by (simp add: word_less_nat_alt)
  have rem: "uint xlen - uint eo = int (length rest)"
    using x uint_nat [of xlen] uint_nat [of eo] by linarith
  show ?thesis
  proof (cases "length rest < 4")
    case True
    with ne lt rem show ?thesis
      by (subst read_extra_subfields.simps) (simp add: scan_rest_def)
  next
    case False
    then have len4: "4 \<le> length rest" by simp
    with r have tag: "rest ! 0 = 66" "rest ! 1 = 67"
      and six: "le_value (take 2 (drop 2 rest)) = 2 \<Longrightarrow> 6 \<le> length rest"
      by (auto simp: rest_ok_def)
    have rd: "stream_read 4 s = Inr (take 4 rest, s\<lparr>gpos := length pre + 4\<rparr>)"
      using c g e len4
      by (intro stream_read_at [where post = "drop 4 rest @ post"]) simp_all
    have tag4: "take 4 rest ! 0 = 66 \<and> take 4 rest ! 1 = 67"
      using tag len4 by simp
    have d2: "drop 2 (take 4 rest) = take 2 (drop 2 rest)"
      by (simp add: drop_take)
    have sz: "(read_int Little_endian (drop 2 (take 4 rest)) :: 16 word)
              = word_of_nat (le_value (take 2 (drop 2 rest)))"
      using read_int_16_append [of "take 2 (drop 2 rest)" "[]"] len4 by (simp add: d2)
    have szv: "unat (word_of_nat (le_value (take 2 (drop 2 rest))) :: 16 word)
               = le_value (take 2 (drop 2 rest))"
      using le_value_two_less [of "take 2 (drop 2 rest)"] len4
      by (simp add: unsigned_of_nat take_bit_nat_eq_self)
    have sz2: "(word_of_nat (le_value (take 2 (drop 2 rest))) :: 16 word) \<noteq> 2
               \<longleftrightarrow> le_value (take 2 (drop 2 rest)) \<noteq> 2"
    proof -
      have "(word_of_nat (le_value (take 2 (drop 2 rest))) :: 16 word) = 2
            \<longleftrightarrow> unat (word_of_nat (le_value (take 2 (drop 2 rest))) :: 16 word) = unat (2 :: 16 word)"
        by (simp only: word_unat_eq_iff)
      then show ?thesis by (simp add: szv)
    qed
    show ?thesis
    proof (cases "le_value (take 2 (drop 2 rest)) = 2")
      case False
      with ne len4 sz2 have m: "(word_of_nat (le_value (take 2 (drop 2 rest))) :: 16 word) \<noteq> 2"
        by simp
      have nrem: "\<not> uint xlen - uint eo < 4" using rem len4 by simp
      show ?thesis
        apply (subst read_extra_subfields.simps)
        apply (simp only: lt nrem if_True if_False rd sum.case prod.case tag4 sz m simp_thms)
        apply (insert ne len4 False)
        apply (simp add: scan_rest_def)
        done
    next
      case two: True
      with sz2 have m: "(word_of_nat (le_value (take 2 (drop 2 rest))) :: 16 word) = 2"
        by simp
      from six [OF two] have len6: "6 \<le> length rest" .
      have rd2: "stream_read 2 (s\<lparr>gpos := length pre + 4\<rparr>)
                 = Inr (take 2 (drop 4 rest), s\<lparr>gpos := length pre + 6\<rparr>)"
      proof -
        have "take 4 rest @ take 2 (drop 4 rest) @ drop 6 rest
              = take 4 rest @ (take 2 (drop 4 rest) @ drop 2 (drop 4 rest))"
          by simp
        also have "\<dots> = rest"
          by (simp only: append_take_drop_id)
        finally have "pre @ rest @ post
              = pre @ (take 4 rest @ take 2 (drop 4 rest) @ drop 6 rest) @ post"
          by (simp only:)
        with c have "content s
              = (pre @ take 4 rest) @ take 2 (drop 4 rest) @ (drop 6 rest @ post)"
          by (simp only: append_assoc)
        then have "content (s\<lparr>gpos := length pre + 4\<rparr>)
              = (pre @ take 4 rest) @ take 2 (drop 4 rest) @ (drop 6 rest @ post)"
          by simp
        then show ?thesis
          using e len6
          by (subst stream_read_at [where pre = "pre @ take 4 rest" and bs = "take 2 (drop 4 rest)"
                and post = "drop 6 rest @ post"]) simp_all
      qed
      have sk: "stream_seekg_cur (uint xlen - uint eo - 6) (s\<lparr>gpos := length pre + 6\<rparr>)
                = Inr (s\<lparr>gpos := length pre + length rest\<rparr>)"
      proof -
        have "int (length pre + 6) + (uint xlen - uint eo - 6) = int (length pre + length rest)"
          using rem by simp
        then show ?thesis
          using e by (simp add: stream_seekg_cur_def del: of_nat_add)
      qed
      have bs: "uint (read_int Little_endian (take 2 (drop 4 rest)) :: 16 word)
                = int (le_value (take 2 (drop 4 rest)))"
      proof -
        have "(read_int Little_endian (take 2 (drop 4 rest)) :: 16 word)
              = word_of_nat (le_value (take 2 (drop 4 rest)))"
          using read_int_16_append [of "take 2 (drop 4 rest)" "[]"] len6 by simp
        moreover have "unat (word_of_nat (le_value (take 2 (drop 4 rest))) :: 16 word)
              = le_value (take 2 (drop 4 rest))"
          using le_value_two_less [of "take 2 (drop 4 rest)"] len6
          by (simp add: unsigned_of_nat take_bit_nat_eq_self)
        ultimately show ?thesis
          using uint_nat [of "word_of_nat (le_value (take 2 (drop 4 rest))) :: 16 word"] by simp
      qed
      have nrem: "\<not> uint xlen - uint eo < 4" using rem len4 by simp
      have ux: "uint xlen = int (unat xlen)" by (rule uint_nat)
      show ?thesis
        apply (subst read_extra_subfields.simps)
        apply (simp only: lt nrem if_True if_False rd sum.case prod.case tag4 sz m simp_thms
            rd2 sk bs)
        apply (insert ne len4 two)
        apply (simp add: scan_rest_def)
        done
    qed
  qed
qed


lemma enc_subfields_simps [simp]:
  "enc_subfields [] = []"
  "enc_subfields (sf # sfs) = enc_subfield sf @ enc_subfields sfs"
  by (simp_all add: enc_subfields_def)

lemma read_extra_subfields_scan:
  fixes xlen eo :: "16 word"
  assumes "content s = pre @ enc_subfields sfs @ rest @ post"
    and "gpos s = length pre" and "\<not> eofbit s"
    and "unat xlen = unat eo + length (enc_subfields sfs) + length rest"
    and "skipped_ok sfs" and "rest_ok rest"
  shows "read_extra_subfields Little_endian xlen eo s =
         scan_rest (unat xlen) rest
           (s\<lparr>gpos := length pre + length (enc_subfields sfs) + length rest\<rparr>)"
  using assms
proof (induction sfs arbitrary: pre eo s)
  case Nil
  then show ?case
    using read_extra_subfields_rest [of s pre rest post xlen eo] by simp
next
  case (Cons sf sfs)
  let ?n = "length (snd (snd sf))"
  let ?eo = "eo + 4 + word_of_nat ?n"
  let ?s = "s\<lparr>gpos := length pre + length (enc_subfield sf)\<rparr>"
  have xl: "unat xlen < 65536" using unsigned_less [of xlen, where 'a = nat] by simp
  from Cons.prems(4) have le: "unat eo + 4 + ?n \<le> unat xlen"
    by (simp add: enc_subfield_length)
  with xl have n: "?n < 65536" by simp
  then have un: "unat (word_of_nat ?n :: 16 word) = ?n"
    by (simp add: unsigned_of_nat take_bit_nat_eq_self)
  have "unat (eo + 4) = unat eo + unat (4 :: 16 word)"
    using le xl by (intro unat_16_add) simp
  then have e4: "unat (eo + 4) = unat eo + 4" by simp
  have "unat ?eo = unat (eo + 4) + unat (word_of_nat ?n :: 16 word)"
    using le xl e4 un by (intro unat_16_add) simp
  with e4 un have eo: "unat ?eo = unat eo + 4 + ?n" by simp
  have skip: "read_extra_subfields Little_endian xlen eo s =
              read_extra_subfields Little_endian xlen ?eo ?s"
    using Cons.prems le
    by (intro read_extra_subfields_skip [where post = "enc_subfields sfs @ rest @ post"])
       (simp_all add: skipped_ok_def)
  have "read_extra_subfields Little_endian xlen ?eo ?s =
        scan_rest (unat xlen) rest
          (?s\<lparr>gpos := length (pre @ enc_subfield sf) + length (enc_subfields sfs) + length rest\<rparr>)"
    using Cons.prems eo
    by (intro Cons.IH) (simp_all add: skipped_ok_def enc_subfield_length)
  with skip show ?case by (simp add: add.assoc)
qed

lemma read_header_scan:
  assumes c: "content s = pre @ hdr @ enc_subfields sfs @ rest @ post"
    and g: "gpos s = length pre" and e: "\<not> eofbit s"
    and h: "length hdr = 12"
    and x: "le_value (drop 10 hdr) = length (enc_subfields sfs) + length rest"
    and sk: "skipped_ok sfs" and r: "rest_ok rest"
  shows "read_header Little_endian s =
         (if take 4 hdr \<noteq> expected_header then Inl Malformed_header
          else scan_rest (le_value (drop 10 hdr)) rest
                 (s\<lparr>gpos := length pre + 12 + le_value (drop 10 hdr)\<rparr>))"
proof -
  define n where "n = le_value (drop 10 hdr)"
  have rd: "stream_read 12 s = Inr (hdr, s\<lparr>gpos := length pre + 12\<rparr>)"
    using c g e h by (intro stream_read_at) simp_all
  have xw: "(read_int Little_endian (drop 10 hdr) :: 16 word) = word_of_nat n"
    using read_int_16_append [of "drop 10 hdr" "[]"] h by (simp add: n_def)
  have xv: "unat (word_of_nat n :: 16 word) = n"
    using le_value_two_less [of "drop 10 hdr"] h
    by (simp add: n_def unsigned_of_nat take_bit_nat_eq_self)
  have n: "n = length (enc_subfields sfs) + length rest"
    using x by (simp add: n_def)
  have c': "content (s\<lparr>gpos := length pre + 12\<rparr>)
            = (pre @ hdr) @ enc_subfields sfs @ rest @ post"
    using c by simp
  have g': "gpos (s\<lparr>gpos := length pre + 12\<rparr>) = length (pre @ hdr)"
    using h by simp
  have e': "\<not> eofbit (s\<lparr>gpos := length pre + 12\<rparr>)"
    using e by simp
  have x': "unat (word_of_nat n :: 16 word)
            = unat (0 :: 16 word) + length (enc_subfields sfs) + length rest"
    unfolding xv using n by simp
  have "read_extra_subfields Little_endian (word_of_nat n) 0 (s\<lparr>gpos := length pre + 12\<rparr>) =
        scan_rest (unat (word_of_nat n :: 16 word)) rest
          (s\<lparr>gpos := length pre + 12\<rparr>
            \<lparr>gpos := length (pre @ hdr) + length (enc_subfields sfs) + length rest\<rparr>)"
    by (rule read_extra_subfields_scan [OF c' g' e' x' sk r])
  also have "\<dots> = scan_rest n rest (s\<lparr>gpos := length pre + 12 + n\<rparr>)"
    using h by (simp add: xv) (simp add: n add.assoc)
  finally show ?thesis
    by (simp add: read_header_def rd xw n_def [symmetric])
qed

section \<open>The errors of \<open>read_header\<close>\<close>





section \<open>Reading a valid block\<close>

lemma le_value_append: "le_value (xs @ ys) = le_value xs + 256 ^ length xs * le_value ys"
  by (induction xs) (simp_all add: algebra_simps)

lemma le_value_u32_bytes: "n < 2 ^ 32 \<Longrightarrow> le_value (u32_bytes n) = n"
proof -
  assume n: "n < 2 ^ 32"
  then have "n div 65536 < 65536" by simp
  then show ?thesis
    by (simp add: u32_bytes_def le_value_append le_value_u16_bytes)
qed

lemma length_u32_bytes [simp]: "length (u32_bytes n) = 4"
  by (simp add: u32_bytes_def)

lemma read_int_32_u32_bytes:
  assumes "n < 2 ^ 32"
  shows "unat (read_int Little_endian (u32_bytes n @ xs) :: 32 word) = n"
proof -
  have "(read_int Little_endian (u32_bytes n @ xs) :: 32 word) = word_of_nat (le_value (u32_bytes n))"
    by (simp add: read_int_def object_value_def)
  with assms show ?thesis
    by (simp add: le_value_u32_bytes unsigned_of_nat take_bit_nat_eq_self)
qed

lemma length_enc_header: "length (fixed b) = 6 \<Longrightarrow> length (enc_header b) = 12 + xlen_of b"
  by (simp add: enc_header_def xlen_of_def)

lemma length_enc_block: "length (fixed b) = 6 \<Longrightarrow> length (crc b) = 4 \<Longrightarrow>
  length (enc_block b) = bsize_of b"
  by (simp add: enc_block_def length_enc_header bsize_of_def)

lemma read_header_block:
  assumes v: "valid_block inflate b"
    and c: "content s = pre @ enc_block b @ post"
    and g: "gpos s = length pre" and e: "\<not> eofbit s"
  shows "read_header Little_endian s =
         Inr (\<lparr>block_size = int (bsize_of b), extra_length = int (xlen_of b)\<rparr>,
              s\<lparr>gpos := length pre + 12 + xlen_of b\<rparr>)"
proof -
  let ?hdr = "[31, 139, 8, 4] @ fixed b @ u16_bytes (xlen_of b)"
  let ?rest = "[66, 67] @ u16_bytes 2 @ u16_bytes (bsize_of b - 1) @ trailing b"
  let ?post = "cdata b @ crc b @ u32_bytes (length (udata b)) @ post"
  from v have f: "length (fixed b) = 6" and sk: "skipped_ok (skipped b)"
    and bs: "bsize_of b \<le> 65536"
    by (auto simp: valid_block_def)
  from bs have xl: "xlen_of b < 65536" and b1: "bsize_of b - 1 < 65536" and b0: "0 < bsize_of b"
    by (auto simp: bsize_of_def)
  have c': "content s = pre @ ?hdr @ enc_subfields (skipped b) @ ?rest @ ?post"
    using c by (simp add: enc_block_def enc_header_def)
  have h: "length ?hdr = 12" using f by simp
  have d10: "drop 10 ?hdr = u16_bytes (xlen_of b)" using f by simp
  have x: "le_value (drop 10 ?hdr) = length (enc_subfields (skipped b)) + length ?rest"
    unfolding d10 using xl by (simp add: le_value_u16_bytes xlen_of_def)
  have r2: "take 2 (drop 2 ?rest) = u16_bytes 2" by simp
  have r4: "take 2 (drop 4 ?rest) = u16_bytes (bsize_of b - 1)" by simp
  have r: "rest_ok ?rest" by (simp add: rest_ok_def)
  have t4: "take 4 ?hdr = expected_header" by (simp add: expected_header_def)
  have "read_header Little_endian s =
        scan_rest (le_value (drop 10 ?hdr)) ?rest
          (s\<lparr>gpos := length pre + 12 + le_value (drop 10 ?hdr)\<rparr>)"
    using read_header_scan [OF c' g e h x sk r] t4 by (simp only: if_False simp_thms)
  also have "le_value (drop 10 ?hdr) = xlen_of b"
    unfolding d10 using xl by (simp add: le_value_u16_bytes)
  finally show ?thesis
    using b1 b0 unfolding scan_rest_def r2 r4
    by (simp add: le_value_u16_bytes)
qed


lemma offsets_of_Nil [simp]: "offsets_of [] = [0]"
  by (simp add: offsets_of_def)

lemma offsets_of_snoc: "offsets_of (ns @ [n]) = offsets_of ns @ [sum_list ns + n]"
  by (simp add: offsets_of_def)

lemma last_offsets_of [simp]: "last (offsets_of ns) = sum_list ns"
  by (simp add: offsets_of_def last_map)

lemma length_offsets_of [simp]: "length (offsets_of ns) = Suc (length ns)"
  by (simp add: offsets_of_def)

lemma nth_offsets_of: "i \<le> length ns \<Longrightarrow> offsets_of ns ! i = sum_list (take i ns)"
  unfolding offsets_of_def by (subst nth_map) (simp_all del: upt_Suc)

lemma take_1_offsets_of: "take (Suc 0) (offsets_of ns) = [0]"
  by (simp add: offsets_of_def upt_rec [of 0] del: upt_Suc)

lemma sum_list_lengths: "sum_list (map (\<lambda>b. length (f b)) bs) = length (concat (map f bs))"
  by (induction bs) simp_all

lemma group_holds_sizes:
  assumes "group_holds g bs"
  shows "compressed_size g = length (h_compressed_blocks g)"
    and "decompressed_size g = length (data_of bs)"
    and "num_blocks g = length bs"
  using assms
  by (simp_all add: group_holds_def compressed_size_def decompressed_size_def num_blocks_def
      data_of_def sum_list_lengths size_sub_def)

lemma write_at_end: "write_at (xs @ replicate (length bs) z) (length xs) bs = xs @ bs"
  by (simp add: write_at_def)

lemma read_block_block:
  assumes v: "valid_block inflate b"
    and c: "content s = pre @ cdata b @ post"
    and g: "gpos s = length pre" and e: "\<not> eofbit s"
    and h: "group_holds gr G"
  shows "read_block gr \<lparr>block_size = int (bsize_of b), extra_length = int (xlen_of b)\<rparr> s =
         Inr (gr\<lparr>h_compressed_blocks := h_compressed_blocks gr @ cdata b\<rparr>,
              s\<lparr>gpos := length pre + length (cdata b)\<rparr>)"
proof -
  have ds: "data_size \<lparr>block_size = int (bsize_of b), extra_length = int (xlen_of b)\<rparr>
            = int (length (cdata b))"
    by (simp add: data_size_def bsize_of_def)
  have rd: "stream_read (length (cdata b)) s = Inr (cdata b, s\<lparr>gpos := length pre + length (cdata b)\<rparr>)"
    using c g e by (intro stream_read_at) simp_all
  have w: "write_at (resize (length (h_compressed_blocks gr) + length (cdata b)) (h_compressed_blocks gr))
             (compressed_size gr) (cdata b) = h_compressed_blocks gr @ cdata b"
    using write_at_end [of "h_compressed_blocks gr" "cdata b" 0]
    by (simp add: group_holds_sizes(1) [OF h] resize_def)
  show ?thesis
    by (simp add: read_block_def ds rd w)
qed

lemma read_footer_block:
  assumes v: "valid_block inflate b"
    and c: "content s = pre @ crc b @ u32_bytes (length (udata b)) @ post"
    and g: "gpos s = length pre" and e: "\<not> eofbit s"
  shows "\<exists>f. read_footer Little_endian s = Inr (f, s\<lparr>gpos := length pre + 8\<rparr>)
             \<and> unat (decompressed_size_f f) = length (udata b)"
proof -
  from v have l: "length (crc b) = 4" "length (udata b) < 2 ^ 32"
    by (auto simp: valid_block_def)
  have rd: "stream_read 8 s = Inr (crc b @ u32_bytes (length (udata b)), s\<lparr>gpos := length pre + 8\<rparr>)"
    using c g e l by (intro stream_read_at [where post = post]) simp_all
  have "drop 4 (crc b @ u32_bytes (length (udata b))) = u32_bytes (length (udata b)) @ []"
    using l by simp
  then have "unat (read_int Little_endian (drop 4 (crc b @ u32_bytes (length (udata b)))) :: 32 word)
             = length (udata b)"
    using read_int_32_u32_bytes [OF l(2), of "[]"] by (simp only:)
  then show ?thesis
    by (simp add: read_footer_def rd)
qed

lemma group_holds_add:
  assumes "group_holds gr G" and "unat (decompressed_size_f f) = length (udata b)"
  shows "group_holds
           ((add_block_offsets (gr\<lparr>h_compressed_blocks := h_compressed_blocks gr @ cdata b\<rparr>)
               \<lparr>block_size = int (bsize_of b), extra_length = int (xlen_of b)\<rparr> f)
            \<lparr>available_decompressed_size := a\<rparr>)
           (G @ [b])"
  using assms
  by (simp add: group_holds_def add_block_offsets_def compressed_size_def decompressed_size_def
      data_size_def bsize_of_def offsets_of_snoc)


lemma enc_block_nonempty: "enc_block b \<noteq> []"
  by (simp add: enc_block_def enc_header_def)

lemma read_compressed_blocks_block:
  assumes v: "valid_block inflate b"
    and c: "content (data_stream r) = pre @ enc_block b @ post"
    and g: "gpos (data_stream r) = length pre" and e: "\<not> eofbit (data_stream r)"
    and h: "group_holds (curr_blocks r) G"
    and lt: "decompressed_size (curr_blocks r) < n"
    and le: "compressed_pos r \<le> compressed_end r"
  shows "\<exists>f. unat (decompressed_size_f f) = length (udata b) \<and>
           read_compressed_blocks Little_endian n r =
             (if compressed_pos r = compressed_end r
              then Inr (next_reader r \<lparr>block_size = int (bsize_of b), extra_length = int (xlen_of b)\<rparr>
                          ((curr_blocks r)\<lparr>h_compressed_blocks :=
                              h_compressed_blocks (curr_blocks r) @ cdata b\<rparr>) f
                          ((data_stream r)\<lparr>gpos := length pre + bsize_of b\<rparr>) (local_end r))
              else read_compressed_blocks Little_endian n
                     (next_reader r \<lparr>block_size = int (bsize_of b), extra_length = int (xlen_of b)\<rparr>
                          ((curr_blocks r)\<lparr>h_compressed_blocks :=
                              h_compressed_blocks (curr_blocks r) @ cdata b\<rparr>) f
                          ((data_stream r)\<lparr>gpos := length pre + bsize_of b\<rparr>)
                          (unat (decompressed_size_f f))))"
proof -
  let ?s = "data_stream r"
  let ?H = "\<lparr>block_size = int (bsize_of b), extra_length = int (xlen_of b)\<rparr>"
  let ?s2 = "?s\<lparr>gpos := length pre + 12 + xlen_of b\<rparr>"
  let ?g1 = "(curr_blocks r)\<lparr>h_compressed_blocks := h_compressed_blocks (curr_blocks r) @ cdata b\<rparr>"
  let ?s3 = "?s\<lparr>gpos := length pre + 12 + xlen_of b + length (cdata b)\<rparr>"
  let ?s4 = "?s\<lparr>gpos := length pre + bsize_of b\<rparr>"
  from v have f6: "length (fixed b) = 6" by (simp add: valid_block_def)
  have pk: "stream_peek ?s = Inr ?s"
    using c g e enc_block_nonempty [of b] by (simp add: stream_peek_def)
  have hd: "read_header Little_endian ?s = Inr (?H, ?s2)"
    by (rule read_header_block [OF v c g e])
  have c2: "content ?s2 = (pre @ enc_header b) @ cdata b
              @ (crc b @ u32_bytes (length (udata b)) @ post)"
    using c by (simp add: enc_block_def)
  have g2: "gpos ?s2 = length (pre @ enc_header b)"
    using f6 by (simp add: length_enc_header)
  have e2: "\<not> eofbit ?s2" using e by simp
  have bl: "read_block (curr_blocks r) ?H ?s2 = Inr (?g1, ?s3)"
    using read_block_block [OF v c2 g2 e2 h] f6 by (simp add: length_enc_header add.assoc)
  have c3: "content ?s3 = (pre @ enc_header b @ cdata b)
              @ crc b @ u32_bytes (length (udata b)) @ post"
    using c by (simp add: enc_block_def)
  have g3: "gpos ?s3 = length (pre @ enc_header b @ cdata b)"
    using f6 by (simp add: length_enc_header)
  have e3: "\<not> eofbit ?s3" using e by simp
  from read_footer_block [OF v c3 g3 e3] obtain f where
    ft: "read_footer Little_endian ?s3 = Inr (f, ?s4)"
    and fv: "unat (decompressed_size_f f) = length (udata b)"
    using f6 by (auto simp: length_enc_header bsize_of_def add.assoc)
  have "read_compressed_blocks Little_endian n r =
        (if compressed_pos r = compressed_end r
         then Inr (next_reader r ?H ?g1 f ?s4 (local_end r))
         else read_compressed_blocks Little_endian n
                (next_reader r ?H ?g1 f ?s4 (unat (decompressed_size_f f))))"
    apply (subst read_compressed_blocks.simps)
    apply (simp only: lt e pk if_True if_False sum.case prod.case hd bl ft next_reader_def)
    apply (insert le e)
    apply simp
    done
  with fv show ?thesis by blast
qed

section \<open>Loading the blocks of a valid stream\<close>

lemma next_reader_fields [simp]:
  "data_stream (next_reader r h g f s a) = s"
  "curr_blocks (next_reader r h g f s a) =
     (add_block_offsets g h f)\<lparr>available_decompressed_size := available_decompressed_size g + a\<rparr>"
  "compressed_pos (next_reader r h g f s a) = compressed_pos r + nat (block_size h)"
  "compressed_end (next_reader r h g f s a) = compressed_end r"
  "local_end (next_reader r h g f s a) = local_end r"
  "prev_blocks (next_reader r h g f s a) = prev_blocks r"
  by (simp_all add: next_reader_def)

lemma add_block_offsets_fields [simp]:
  "read_pos (add_block_offsets g h f) = read_pos g"
  "is_decompressed (add_block_offsets g h f) = is_decompressed g"
  "available_decompressed_size (add_block_offsets g h f) = available_decompressed_size g"
  "d_decompressed_blocks (add_block_offsets g h f) = d_decompressed_blocks g"
  by (simp_all add: add_block_offsets_def)

lemma enc_blocks_simps [simp]:
  "enc_blocks [] = []"
  "enc_blocks (b # bs) = enc_block b @ enc_blocks bs"
  "enc_blocks (bs @ cs) = enc_blocks bs @ enc_blocks cs"
  by (simp_all add: enc_blocks_def)

lemma data_of_simps [simp]:
  "data_of [] = []"
  "data_of (b # bs) = udata b @ data_of bs"
  "data_of (bs @ cs) = data_of bs @ data_of cs"
  by (simp_all add: data_of_def)

lemma range_data_past: "cend < cpos \<Longrightarrow> range_data cpos cend lend bs = []"
  by (cases bs) simp_all

lemma end_ok_past: "cend < cpos \<Longrightarrow> end_ok cpos cend lend bs"
  by (cases bs) simp_all

lemma bsize_of_pos: "0 < bsize_of b"
  by (simp add: bsize_of_def)

lemma loaded_none:
  assumes "content (data_stream r') = content (data_stream r)"
    and "gpos (data_stream r') = gpos (data_stream r)"
    and "eofbit (data_stream r') \<longrightarrow> rest = []"
    and "r' = r\<lparr>data_stream := data_stream r'\<rparr>"
    and "group_holds (curr_blocks r) G"
    and "available_decompressed_size (curr_blocks r) = length (data_of G)"
    and "end_ok (compressed_pos r) (compressed_end r) (local_end r) rest"
    and "n \<le> decompressed_size (curr_blocks r) \<or> rest = []
         \<or> compressed_end r < compressed_pos r"
  shows "loaded n r G rest r' [] rest"
proof -
  have f: "compressed_pos r' = compressed_pos r" "compressed_end r' = compressed_end r"
    "local_end r' = local_end r" "prev_blocks r' = prev_blocks r" "curr_blocks r' = curr_blocks r"
    by (subst assms(4), simp)+
  have "n \<le> available_decompressed_size (curr_blocks r)
        \<or> range_data (compressed_pos r) (compressed_end r) (local_end r) rest = []"
    using assms(8) assms(6) group_holds_sizes(2) [OF assms(5)]
    by (auto simp: range_data_past)
  with assms show ?thesis
    by (simp add: loaded_def f)
qed


lemma loaded_last:
  assumes v: "valid_block inflate b"
    and h: "group_holds (curr_blocks r) G"
    and a: "available_decompressed_size (curr_blocks r) = length (data_of G)"
    and ce: "compressed_pos r = compressed_end r"
    and eo: "end_ok (compressed_pos r) (compressed_end r) (local_end r) (b # rest)"
    and e: "\<not> eofbit (data_stream r)"
    and fv: "unat (decompressed_size_f f) = length (udata b)"
  shows "loaded n r G (b # rest)
           (next_reader r \<lparr>block_size = int (bsize_of b), extra_length = int (xlen_of b)\<rparr>
              ((curr_blocks r)\<lparr>h_compressed_blocks := h_compressed_blocks (curr_blocks r) @ cdata b\<rparr>)
              f ((data_stream r)\<lparr>gpos := gpos (data_stream r) + bsize_of b\<rparr>) (local_end r))
           [b] rest"
proof -
  from v have len: "length (enc_block b) = bsize_of b"
    by (simp add: valid_block_def length_enc_block)
  from eo ce have le: "local_end r \<le> length (udata b)" by simp
  have past: "compressed_end r < compressed_end r + bsize_of b"
    using bsize_of_pos [of b] by simp
  show ?thesis
    unfolding loaded_def
    using e a le ce
    by (simp add: len group_holds_add [OF h fv] range_data_past [OF past] end_ok_past [OF past])
qed

lemma loaded_step:
  assumes v: "valid_block inflate b"
    and a: "available_decompressed_size (curr_blocks r) = length (data_of G)"
    and lt: "compressed_pos r < compressed_end r"
    and r1: "r1 = next_reader r \<lparr>block_size = int (bsize_of b), extra_length = int (xlen_of b)\<rparr>
              ((curr_blocks r)\<lparr>h_compressed_blocks := h_compressed_blocks (curr_blocks r) @ cdata b\<rparr>)
              f ((data_stream r)\<lparr>gpos := gpos (data_stream r) + bsize_of b\<rparr>) m"
    and l: "loaded n r1 (G @ [b]) rest r' ld rest'"
  shows "loaded n r G (b # rest) r' (b # ld) rest'"
proof -
  from v have len: "length (enc_block b) = bsize_of b"
    by (simp add: valid_block_def length_enc_block)
  have f: "content (data_stream r1) = content (data_stream r)"
    "gpos (data_stream r1) = gpos (data_stream r) + bsize_of b"
    "compressed_pos r1 = compressed_pos r + bsize_of b"
    "compressed_end r1 = compressed_end r" "local_end r1 = local_end r"
    "prev_blocks r1 = prev_blocks r"
    "read_pos (curr_blocks r1) = read_pos (curr_blocks r)"
    "is_decompressed (curr_blocks r1) = is_decompressed (curr_blocks r)"
    by (simp_all add: r1)
  have G: "(G @ [b]) @ ld = G @ b # ld" by simp
  from l have eq: "take (available_decompressed_size (curr_blocks r')) (data_of (G @ b # ld))
           @ range_data (compressed_pos r') (compressed_end r) (local_end r) rest'
         = data_of (G @ [b]) @ range_data (compressed_pos r + bsize_of b) (compressed_end r) (local_end r) rest"
    and av: "available_decompressed_size (curr_blocks r') \<le> length (data_of (G @ b # ld))"
    and gh: "group_holds (curr_blocks r') (G @ b # ld)"
    and others: "rest = ld @ rest'"
      "content (data_stream r') = content (data_stream r)"
      "gpos (data_stream r') = gpos (data_stream r) + bsize_of b + length (enc_blocks ld)"
      "eofbit (data_stream r') \<longrightarrow> rest' = []"
      "compressed_pos r' = compressed_pos r + bsize_of b + length (enc_blocks ld)"
      "compressed_end r' = compressed_end r" "local_end r' = local_end r"
      "prev_blocks r' = prev_blocks r"
      "read_pos (curr_blocks r') = read_pos (curr_blocks r)"
      "is_decompressed (curr_blocks r') = is_decompressed (curr_blocks r)"
      "n \<le> available_decompressed_size (curr_blocks r')
          \<or> range_data (compressed_pos r') (compressed_end r) (local_end r) rest' = []"
      "end_ok (compressed_pos r') (compressed_end r) (local_end r) rest'"
    unfolding loaded_def f G by blast+
  have rd: "range_data (compressed_pos r) (compressed_end r) (local_end r) (b # rest)
            = udata b @ range_data (compressed_pos r + bsize_of b) (compressed_end r) (local_end r) rest"
    using lt by simp
  show ?thesis
    unfolding loaded_def
  proof (intro conjI)
    show "take (available_decompressed_size (curr_blocks r')) (data_of (G @ b # ld))
           @ range_data (compressed_pos r') (compressed_end r) (local_end r) rest'
         = data_of G @ range_data (compressed_pos r) (compressed_end r) (local_end r) (b # rest)"
      unfolding eq rd by simp
    show "available_decompressed_size (curr_blocks r') \<le> length (data_of (G @ b # ld))"
      by (rule av)
    show "group_holds (curr_blocks r') (G @ b # ld)" by (rule gh)
  qed (use others in \<open>simp_all add: len\<close>)
qed


lemma load_blocks:
  assumes "list_all (valid_block inflate) rest"
    and "content (data_stream r) = pre @ enc_blocks rest"
    and "gpos (data_stream r) = length pre"
    and "eofbit (data_stream r) \<longrightarrow> rest = []"
    and "group_holds (curr_blocks r) G"
    and "available_decompressed_size (curr_blocks r) = length (data_of G)"
    and "end_ok (compressed_pos r) (compressed_end r) (local_end r) rest"
  shows "\<exists>r' ld rest'. read_compressed_blocks Little_endian n r = Inr r'
                        \<and> loaded n r G rest r' ld rest'"
  using assms
proof (induction rest arbitrary: r pre G)
  case Nil
  show ?case
  proof (cases "decompressed_size (curr_blocks r) < n")
    case False
    then have "read_compressed_blocks Little_endian n r = Inr r"
      by (subst read_compressed_blocks.simps) simp
    moreover have "loaded n r G [] r [] []"
      using Nil False by (intro loaded_none) simp_all
    ultimately show ?thesis by blast
  next
    case lt: True
    show ?thesis
    proof (cases "eofbit (data_stream r)")
      case True
      with lt have "read_compressed_blocks Little_endian n r = Inr r"
        by (subst read_compressed_blocks.simps) simp
      moreover have "loaded n r G [] r [] []"
        using Nil by (intro loaded_none) simp_all
      ultimately show ?thesis by blast
    next
      case False
      with Nil.prems have pk: "stream_peek (data_stream r) = Inr ((data_stream r)\<lparr>eofbit := True\<rparr>)"
        by (simp add: stream_peek_def)
      with lt False have "read_compressed_blocks Little_endian n r
                          = Inr (r\<lparr>data_stream := (data_stream r)\<lparr>eofbit := True\<rparr>\<rparr>)"
        by (subst read_compressed_blocks.simps) simp
      moreover have "loaded n r G [] (r\<lparr>data_stream := (data_stream r)\<lparr>eofbit := True\<rparr>\<rparr>) [] []"
        using Nil by (intro loaded_none) simp_all
      ultimately show ?thesis by blast
    qed
  qed
next
  case (Cons b rest)
  from Cons.prems have v: "valid_block inflate b" and vs: "list_all (valid_block inflate) rest"
    and e: "\<not> eofbit (data_stream r)"
    and c: "content (data_stream r) = pre @ enc_block b @ enc_blocks rest"
    and g: "gpos (data_stream r) = length pre"
    and h: "group_holds (curr_blocks r) G"
    and a: "available_decompressed_size (curr_blocks r) = length (data_of G)"
    and eo: "end_ok (compressed_pos r) (compressed_end r) (local_end r) (b # rest)"
    by simp_all
  show ?case
  proof (cases "decompressed_size (curr_blocks r) < n")
    case False
    then have "read_compressed_blocks Little_endian n r = Inr r"
      by (subst read_compressed_blocks.simps) simp
    moreover have "loaded n r G (b # rest) r [] (b # rest)"
      using e h a eo False by (intro loaded_none) simp_all
    ultimately show ?thesis by blast
  next
    case lt: True
    have pk: "stream_peek (data_stream r) = Inr (data_stream r)"
      using c g e enc_block_nonempty [of b] by (simp add: stream_peek_def)
    show ?thesis
    proof (cases "compressed_end r < compressed_pos r")
      case True
      with lt e pk have "read_compressed_blocks Little_endian n r = Inr r"
        by (subst read_compressed_blocks.simps) simp
      moreover have "loaded n r G (b # rest) r [] (b # rest)"
        using e h a eo True by (intro loaded_none) simp_all
      ultimately show ?thesis by blast
    next
      case False
      then have le: "compressed_pos r \<le> compressed_end r" by simp
      let ?H = "\<lparr>block_size = int (bsize_of b), extra_length = int (xlen_of b)\<rparr>"
      let ?g1 = "(curr_blocks r)\<lparr>h_compressed_blocks := h_compressed_blocks (curr_blocks r) @ cdata b\<rparr>"
      let ?s4 = "(data_stream r)\<lparr>gpos := gpos (data_stream r) + bsize_of b\<rparr>"
      from read_compressed_blocks_block [OF v c g e h lt le] obtain f where
        fv: "unat (decompressed_size_f f) = length (udata b)"
        and run: "read_compressed_blocks Little_endian n r =
             (if compressed_pos r = compressed_end r
              then Inr (next_reader r ?H ?g1 f ?s4 (local_end r))
              else read_compressed_blocks Little_endian n
                     (next_reader r ?H ?g1 f ?s4 (unat (decompressed_size_f f))))"
        unfolding g by blast
      show ?thesis
      proof (cases "compressed_pos r = compressed_end r")
        case True
        with run have "read_compressed_blocks Little_endian n r
                       = Inr (next_reader r ?H ?g1 f ?s4 (local_end r))"
          by simp
        moreover have "loaded n r G (b # rest) (next_reader r ?H ?g1 f ?s4 (local_end r)) [b] rest"
          by (rule loaded_last [OF v h a True eo e fv])
        ultimately show ?thesis by blast
      next
        case ne: False
        with le have lt': "compressed_pos r < compressed_end r" by simp
        define r1 where "r1 = next_reader r ?H ?g1 f ?s4 (length (udata b))"
        from v have len: "length (enc_block b) = bsize_of b"
          by (simp add: valid_block_def length_enc_block)
        have "\<exists>r' ld rest'. read_compressed_blocks Little_endian n r1 = Inr r'
                \<and> loaded n r1 (G @ [b]) rest r' ld rest'"
        proof (rule Cons.IH [OF vs, where pre = "pre @ enc_block b"])
          show "content (data_stream r1) = (pre @ enc_block b) @ enc_blocks rest"
            using c by (simp add: r1_def)
          show "gpos (data_stream r1) = length (pre @ enc_block b)"
            using g by (simp add: r1_def len)
          show "eofbit (data_stream r1) \<longrightarrow> rest = []"
            using e by (simp add: r1_def)
          show "group_holds (curr_blocks r1) (G @ [b])"
            unfolding r1_def next_reader_fields by (rule group_holds_add [OF h fv])
          show "available_decompressed_size (curr_blocks r1) = length (data_of (G @ [b]))"
            using a by (simp add: r1_def)
          show "end_ok (compressed_pos r1) (compressed_end r1) (local_end r1) rest"
            using eo lt' by (simp add: r1_def)
        qed
        then obtain r' ld rest' where
          run1: "read_compressed_blocks Little_endian n r1 = Inr r'"
          and l1: "loaded n r1 (G @ [b]) rest r' ld rest'"
          by blast
        from run ne run1 have "read_compressed_blocks Little_endian n r = Inr r'"
          by (simp add: r1_def fv)
        moreover have "loaded n r G (b # rest) r' (b # ld) rest'"
          by (rule loaded_step [OF v a lt' r1_def l1])
        ultimately show ?thesis by blast
      qed
    qed
  qed
qed

section \<open>Decompressing the blocks of a group\<close>

lemma concat_split_nth:
  assumes "i < length bs"
  shows "concat (map f bs) = concat (map f (take i bs)) @ f (bs ! i) @ concat (map f (drop (Suc i) bs))"
proof -
  have "bs = take i bs @ bs ! i # drop (Suc i) bs"
    using assms by (rule id_take_nth_drop)
  then have "concat (map f bs) = concat (map f (take i bs @ bs ! i # drop (Suc i) bs))"
    by (rule arg_cong)
  then show ?thesis by simp
qed

lemma offsets_of_lengths_nth:
  assumes "i \<le> length bs"
  shows "offsets_of (map (\<lambda>b. length (f b)) bs) ! i = length (concat (map f (take i bs)))"
  using assms by (simp add: nth_offsets_of take_map sum_list_lengths)

lemma offsets_of_lengths_Suc:
  assumes "i < length bs"
  shows "offsets_of (map (\<lambda>b. length (f b)) bs) ! (i + 1)
         = length (concat (map f (take i bs))) + length (f (bs ! i))"
  using assms offsets_of_lengths_nth [of "Suc i" bs f]
  by (simp add: take_Suc_conv_app_nth)

lemma size_sub_add [simp]: "size_sub (a + b) a = b"
  by (simp add: size_sub_def)

lemma group_span:
  assumes h: "group_holds g bs" and i: "i < length bs"
  shows "bgzip_nvcomp_transform_functor
           (h_compressed_offsets g ! i, h_compressed_offsets g ! (i + 1),
            h_decompressed_offsets g ! i, h_decompressed_offsets g ! (i + 1))
         = ((length (concat (map cdata (take i bs))), length (cdata (bs ! i))),
            (length (data_of (take i bs)), length (udata (bs ! i))))"
proof -
  from h have co: "h_compressed_offsets g = offsets_of (map (\<lambda>b. length (cdata b)) bs)"
    and do: "h_decompressed_offsets g = offsets_of (map (\<lambda>b. length (udata b)) bs)"
    by (simp_all add: group_holds_def)
  from i have i': "i \<le> length bs" by simp
  show ?thesis
    unfolding bgzip_nvcomp_transform_functor_def prod.case co do
      offsets_of_lengths_Suc [OF i] offsets_of_lengths_nth [OF i']
    by (simp add: data_of_def)
qed

lemma span_bytes_block:
  assumes "i < length bs"
  shows "span_bytes (concat (map cdata bs))
           (length (concat (map cdata (take i bs))), length (cdata (bs ! i))) = cdata (bs ! i)"
  unfolding span_bytes_def fst_conv snd_conv
  by (subst concat_split_nth [OF assms]) simp

lemma write_at_middle:
  assumes "length xs + length u \<le> length buf"
  shows "write_at (xs @ drop (length xs) buf) (length xs) u
         = (xs @ u) @ drop (length (xs @ u)) buf"
  using assms by (simp add: write_at_def add.commute)


lemma length_data_of_take: "length (data_of (take m bs)) \<le> length (data_of bs)"
proof -
  have "data_of bs = data_of (take m bs) @ data_of (drop m bs)"
    using data_of_simps(3) [of "take m bs" "drop m bs"] by simp
  then have "length (data_of bs) = length (data_of (take m bs)) + length (data_of (drop m bs))"
    by (metis length_append)
  then show ?thesis by simp
qed

lemma backend_launch_snoc:
  "backend_launch inflate cb (spans @ [(csp, dsp)]) buf =
   write_at (backend_launch inflate cb spans buf) (fst dsp)
     (take (snd dsp) (inflate (span_bytes cb csp)))"
  by (simp add: backend_launch_def)

lemma backend_launch_blocks:
  assumes h: "group_holds g bs" and v: "list_all (valid_block inflate) bs"
    and len: "length buf = length (data_of bs)"
  shows "m \<le> length bs \<Longrightarrow>
         backend_launch inflate (h_compressed_blocks g)
           (map (\<lambda>i. bgzip_nvcomp_transform_functor
                   (h_compressed_offsets g ! i, h_compressed_offsets g ! (i + 1),
                    h_decompressed_offsets g ! i, h_decompressed_offsets g ! (i + 1))) [0..<m])
           buf
         = data_of (take m bs) @ drop (length (data_of (take m bs))) buf"
proof (induction m)
  case 0
  show ?case by (simp add: backend_launch_def)
next
  case (Suc m)
  then have m: "m < length bs" by simp
  from v m have vb: "inflate (cdata (bs ! m)) = udata (bs ! m)"
    by (simp add: list_all_length valid_block_def)
  have cb: "h_compressed_blocks g = concat (map cdata bs)"
    using h by (simp add: group_holds_def)
  have tk: "take (Suc m) bs = take m bs @ [bs ! m]"
    using m by (rule take_Suc_conv_app_nth)
  have le: "length (data_of (take m bs)) + length (udata (bs ! m)) \<le> length buf"
    using length_data_of_take [of "Suc m" bs] by (simp add: tk len)
  define F where "F = (\<lambda>i. bgzip_nvcomp_transform_functor
                   (h_compressed_offsets g ! i, h_compressed_offsets g ! (i + 1),
                    h_decompressed_offsets g ! i, h_decompressed_offsets g ! (i + 1)))"
  have Fm: "F m = ((length (concat (map cdata (take m bs))), length (cdata (bs ! m))),
                   (length (data_of (take m bs)), length (udata (bs ! m))))"
    unfolding F_def by (rule group_span [OF h m])
  have IH: "backend_launch inflate (h_compressed_blocks g) (map F [0..<m]) buf
            = data_of (take m bs) @ drop (length (data_of (take m bs))) buf"
    using Suc.IH m unfolding F_def by simp
  have "backend_launch inflate (h_compressed_blocks g) (map F [0..<Suc m]) buf
        = backend_launch inflate (h_compressed_blocks g) (map F [0..<m] @ [F m]) buf"
    by simp
  also have "\<dots> = write_at (data_of (take m bs) @ drop (length (data_of (take m bs))) buf)
            (length (data_of (take m bs))) (udata (bs ! m))"
    unfolding Fm backend_launch_snoc IH
    by (simp add: cb span_bytes_block [OF m] vb)
  also have "\<dots> = (data_of (take m bs) @ udata (bs ! m))
                   @ drop (length (data_of (take m bs) @ udata (bs ! m))) buf"
    by (rule write_at_middle [OF le])
  finally show ?case unfolding F_def by (simp add: tk)
qed

lemma decompress_blocks:
  assumes h: "group_holds g bs" and v: "list_all (valid_block inflate) bs"
    and n: "\<not> is_decompressed g"
  shows "d_decompressed_blocks (fst (decompress inflate g)) = data_of bs"
proof (cases "0 < decompressed_size g")
  case False
  then have "length (data_of bs) = 0"
    using group_holds_sizes(2) [OF h] by simp
  with False n show ?thesis
    by (simp add: decompress_def Let_def resize_def)
next
  case True
  have len: "length (resize (decompressed_size g) (d_decompressed_blocks g)) = length (data_of bs)"
    using group_holds_sizes(2) [OF h] by (simp add: resize_def)
  have "d_decompressed_blocks (fst (decompress inflate g))
        = backend_launch inflate (h_compressed_blocks g)
           (map (\<lambda>i. bgzip_nvcomp_transform_functor
                   (h_compressed_offsets g ! i, h_compressed_offsets g ! (i + 1),
                    h_decompressed_offsets g ! i, h_decompressed_offsets g ! (i + 1)))
                [0..<length bs])
           (resize (decompressed_size g) (d_decompressed_blocks g))"
    using True n by (simp add: decompress_def Let_def group_holds_sizes(3) [OF h])
  also have "\<dots> = data_of (take (length bs) bs)
        @ drop (length (data_of (take (length bs) bs)))
            (resize (decompressed_size g) (d_decompressed_blocks g))"
    by (rule backend_launch_blocks [OF h v len]) simp
  finally show ?thesis using len by simp
qed

section \<open>Serving a chunk\<close>

lemma decompress_host [simp]:
  "group_holds (fst (decompress inflate g)) G = group_holds g G"
  "starts_zero (fst (decompress inflate g)) = starts_zero g"
  by (simp_all add: group_holds_def starts_zero_def)

lemma decompress_data:
  assumes "group_holds g G" and "list_all (valid_block inflate) G"
    and "is_decompressed g \<longrightarrow> d_decompressed_blocks g = data_of G"
  shows "d_decompressed_blocks (fst (decompress inflate g)) = data_of G"
proof (cases "is_decompressed g")
  case True
  with assms(3) show ?thesis by (simp add: decompress_def)
next
  case False
  with assms show ?thesis by (intro decompress_blocks)
qed

lemma device_copy_head:
  assumes "k \<le> m" and "off + k \<le> length src"
  shows "device_copy (replicate m 0) 0 src off k = take k (drop off src) @ replicate (m - k) 0"
proof -
  have "length (take k (drop off src)) = k" using assms by simp
  then show ?thesis
    using assms(1) by (simp add: device_copy_def write_at_def)
qed

lemma device_copy_tail:
  assumes "j \<le> length src"
  shows "device_copy (xs @ replicate j 0) (length xs) src 0 j = xs @ take j src"
  using assms by (simp add: device_copy_def write_at_def min_def)

lemma group_holds_starts_zero: "group_holds g G \<Longrightarrow> starts_zero g"
  by (simp add: group_holds_def starts_zero_def take_1_offsets_of)

lemma group_holds_reset: "starts_zero g \<Longrightarrow> group_holds (reset g) []"
proof -
  assume z: "starts_zero g"
  then have "h_compressed_offsets g \<noteq> []" "h_decompressed_offsets g \<noteq> []"
    by (auto simp: starts_zero_def)
  then have "Suc 0 \<le> length (h_compressed_offsets g)" "Suc 0 \<le> length (h_decompressed_offsets g)"
    by (simp_all add: Suc_le_eq)
  with z show ?thesis
    by (simp add: group_holds_def reset_def resize_def starts_zero_def)
qed

lemma reset_fields [simp]:
  "read_pos (reset g) = 0" "available_decompressed_size (reset g) = 0"
  "is_decompressed (reset g) = False"
  by (simp_all add: reset_def)


lemma group_holds_upd [simp]:
  "group_holds (g\<lparr>read_pos := p\<rparr>) G = group_holds g G"
  "group_holds (g\<lparr>available_decompressed_size := a\<rparr>) G = group_holds g G"
  "starts_zero (g\<lparr>read_pos := p\<rparr>) = starts_zero g"
  by (simp_all add: group_holds_def starts_zero_def)

lemma reader_at_remaining:
  "reader_at inflate done G rest r \<Longrightarrow>
   remaining_size (curr_blocks r)
     = available_decompressed_size (curr_blocks r) - read_pos (curr_blocks r)"
  by (simp add: reader_at_def remaining_size_def)

lemma get_next_chunk_within:
  assumes ra: "reader_at inflate done G rest r"
    and n: "n \<le> remaining_size (curr_blocks r)"
  shows "\<exists>r'. get_next_chunk Little_endian inflate n r = Inr (take n (unread r G rest), r')
              \<and> reader_at inflate done G rest r'
              \<and> unread r' G rest = drop n (unread r G rest)"
proof -
  let ?c = "curr_blocks r"
  let ?c1 = "fst (decompress inflate ?c)"
  let ?rp = "read_pos ?c"
  let ?av = "available_decompressed_size ?c"
  let ?r' = "r\<lparr>curr_blocks := ?c1\<lparr>read_pos := ?rp + n\<rparr>\<rparr>"
  from ra have h: "group_holds ?c G" and v: "list_all (valid_block inflate) G"
    and dc: "is_decompressed ?c \<longrightarrow> d_decompressed_blocks ?c = data_of G"
    and rp: "?rp \<le> ?av" and av: "?av \<le> length (data_of G)"
    by (simp_all add: reader_at_def)
  from n have n': "n \<le> ?av - ?rp" by (simp add: reader_at_remaining [OF ra])
  have d: "d_decompressed_blocks ?c1 = data_of G"
    by (rule decompress_data [OF h v dc])
  have copy: "device_copy (replicate n 0) 0 (data_of G) ?rp n = take n (drop ?rp (data_of G))"
    using device_copy_head [of n n ?rp "data_of G"] n' rp av by simp
  have cons: "consume_bytes ?c1 n = Inr (?c1\<lparr>read_pos := ?rp + n\<rparr>)"
    using n by (simp add: consume_bytes_def)
  have run: "get_next_chunk Little_endian inflate n r = Inr (take n (drop ?rp (data_of G)), ?r')"
    using n by (simp add: get_next_chunk_def Let_def d copy cons)
  have E: "drop ?rp (take ?av (data_of G)) = take (?av - ?rp) (drop ?rp (data_of G))"
    by (simp add: drop_take)
  have len: "length (drop ?rp (take ?av (data_of G))) = ?av - ?rp"
    using av by simp
  have tk: "take n (unread r G rest) = take n (drop ?rp (data_of G))"
    unfolding unread_def using n' len by (simp add: E min_def)
  have "drop (?rp + n) (take ?av (data_of G)) = drop n (drop ?rp (take ?av (data_of G)))"
    by (simp add: add.commute)
  then have un: "unread ?r' G rest = drop n (unread r G rest)"
    unfolding unread_def using n' len by simp
  have ra': "reader_at inflate done G rest ?r'"
    using ra n' rp d by (simp add: reader_at_def)
  from run tk un ra' show ?thesis by auto
qed


lemma loadedD:
  assumes "loaded n r G rest r' ld rest'"
  shows "rest = ld @ rest'"
    and "content (data_stream r') = content (data_stream r)"
    and "gpos (data_stream r') = gpos (data_stream r) + length (enc_blocks ld)"
    and "eofbit (data_stream r') \<longrightarrow> rest' = []"
    and "compressed_pos r' = compressed_pos r + length (enc_blocks ld)"
    and "compressed_end r' = compressed_end r" and "local_end r' = local_end r"
    and "prev_blocks r' = prev_blocks r"
    and "group_holds (curr_blocks r') (G @ ld)"
    and "read_pos (curr_blocks r') = read_pos (curr_blocks r)"
    and "is_decompressed (curr_blocks r') = is_decompressed (curr_blocks r)"
    and "available_decompressed_size (curr_blocks r') \<le> length (data_of (G @ ld))"
    and "take (available_decompressed_size (curr_blocks r')) (data_of (G @ ld))
           @ range_data (compressed_pos r') (compressed_end r) (local_end r) rest'
         = data_of G @ range_data (compressed_pos r) (compressed_end r) (local_end r) rest"
    and "n \<le> available_decompressed_size (curr_blocks r')
          \<or> range_data (compressed_pos r') (compressed_end r) (local_end r) rest' = []"
    and "end_ok (compressed_pos r') (compressed_end r) (local_end r) rest'"
    and "ld = [] \<longrightarrow> n \<le> decompressed_size (curr_blocks r) \<or> rest = []
           \<or> compressed_end r < compressed_pos r"
  using assms unfolding loaded_def by blast+

lemma read_next_compressed_chunk_loaded:
  assumes ra: "reader_at inflate done G rest r"
  shows "\<exists>r1 ld rest'. read_next_compressed_chunk Little_endian n r = Inr r1
           \<and> loaded n (r\<lparr>curr_blocks := reset (prev_blocks r), prev_blocks := curr_blocks r\<rparr>)
                 [] rest r1 ld rest'"
  unfolding read_next_compressed_chunk_def
proof (rule load_blocks [where pre = "enc_blocks done" and inflate = inflate])
  let ?r0 = "r\<lparr>curr_blocks := reset (prev_blocks r), prev_blocks := curr_blocks r\<rparr>"
  from ra show "list_all (valid_block inflate) rest" by (simp add: reader_at_def)
  from ra show "content (data_stream ?r0) = enc_blocks done @ enc_blocks rest"
    by (simp add: reader_at_def)
  from ra show "gpos (data_stream ?r0) = length (enc_blocks done)"
    by (simp add: reader_at_def)
  from ra show "eofbit (data_stream ?r0) \<longrightarrow> rest = []"
    by (simp add: reader_at_def)
  from ra show "group_holds (curr_blocks ?r0) []"
    by (simp add: reader_at_def group_holds_reset)
  show "available_decompressed_size (curr_blocks ?r0) = length (data_of [])"
    by simp
  from ra show "end_ok (compressed_pos ?r0) (compressed_end ?r0) (local_end ?r0) rest"
    by (simp add: reader_at_def)
qed

lemma take_drop_two_parts:
  assumes "length E = k" and "k \<le> n" and "length X = a" and "n \<le> k + a \<or> R = []"
  shows "take n (E @ X @ R) = E @ take (min n (k + a) - k) X"
    and "drop n (E @ X @ R) = drop (min n (k + a) - k) X @ R"
proof -
  show "take n (E @ X @ R) = E @ take (min n (k + a) - k) X"
  proof (cases "n \<le> k + a")
    case True
    then have "min n (k + a) - k = n - k" "n - k \<le> a" by simp_all
    with assms(1,2,3) show ?thesis by simp
  next
    case False
    with assms(4) have "R = []" by simp
    moreover from False have "min n (k + a) - k = a" by simp
    ultimately show ?thesis using assms(1,2,3) False by simp
  qed
  show "drop n (E @ X @ R) = drop (min n (k + a) - k) X @ R"
  proof (cases "n \<le> k + a")
    case True
    then have "min n (k + a) - k = n - k" "n - k \<le> a" by simp_all
    with assms(1,2,3) show ?thesis by simp
  next
    case False
    with assms(4) have "R = []" by simp
    moreover from False have "min n (k + a) - k = a" by simp
    ultimately show ?thesis using assms(1,2,3) False by simp
  qed
qed

lemma get_next_chunk_across:
  assumes ra: "reader_at inflate done G rest r"
    and n: "remaining_size (curr_blocks r) < n"
  shows "\<exists>r' ld rest'. rest = ld @ rest'
           \<and> get_next_chunk Little_endian inflate n r = Inr (take n (unread r G rest), r')
           \<and> reader_at inflate (done @ ld) ld rest' r'
           \<and> unread r' ld rest' = drop n (unread r G rest)"
proof -
  let ?c = "curr_blocks r"
  let ?rp = "read_pos ?c"
  let ?av = "available_decompressed_size ?c"
  let ?r0 = "r\<lparr>curr_blocks := reset (prev_blocks r), prev_blocks := curr_blocks r\<rparr>"
  let ?R = "range_data (compressed_pos r) (compressed_end r) (local_end r) rest"
  define k where "k = ?av - ?rp"
  define E where "E = drop ?rp (take ?av (data_of G))"
  from ra have h: "group_holds ?c G" and v: "list_all (valid_block inflate) G"
    and dc: "is_decompressed ?c \<longrightarrow> d_decompressed_blocks ?c = data_of G"
    and rp: "?rp \<le> ?av" and av: "?av \<le> length (data_of G)"
    and vall: "list_all (valid_block inflate) (done @ rest)"
    and cont: "content (data_stream r) = enc_blocks (done @ rest)"
    and gp: "gpos (data_stream r) = length (enc_blocks done)"
    by (simp_all add: reader_at_def)
  have rem: "remaining_size ?c = k"
    by (simp add: k_def reader_at_remaining [OF ra])
  with n have kn: "k < n" by simp
  have lenE: "length E = k" using av by (simp add: E_def k_def)
  have E': "E = take k (drop ?rp (data_of G))"
    by (simp add: E_def k_def drop_take)
  from read_next_compressed_chunk_loaded [OF ra, of n] obtain r1 ld rest' where
    nx: "read_next_compressed_chunk Little_endian n r = Inr r1"
    and ld: "loaded n ?r0 [] rest r1 ld rest'"
    by blast
  let ?c1 = "curr_blocks r1"
  let ?av1 = "available_decompressed_size ?c1"
  let ?R' = "range_data (compressed_pos r1) (compressed_end r) (local_end r) rest'"
  note L = loadedD [OF ld]
  from L(1) have split: "rest = ld @ rest'" .
  from L(2) have cont1: "content (data_stream r1) = content (data_stream r)" by simp
  from L(3) have gp1: "gpos (data_stream r1) = gpos (data_stream r) + length (enc_blocks ld)"
    by simp
  from L(4) have eof1: "eofbit (data_stream r1) \<longrightarrow> rest' = []" .
  from L(6) have ce1: "compressed_end r1 = compressed_end r" by simp
  from L(7) have le1: "local_end r1 = local_end r" by simp
  from L(8) have pv1: "prev_blocks r1 = ?c" by simp
  from L(9) have h1: "group_holds ?c1 ld" by simp
  from L(10) have rp1: "read_pos ?c1 = 0" by simp
  from L(11) have nd1: "\<not> is_decompressed ?c1" by simp
  from L(12) have av1: "?av1 \<le> length (data_of ld)" by simp
  from L(13) have eq1: "take ?av1 (data_of ld) @ ?R' = ?R" by simp
  from L(14) have en1: "n \<le> ?av1 \<or> ?R' = []" by simp
  from L(15) have eo1: "end_ok (compressed_pos r1) (compressed_end r) (local_end r) rest'"
    by simp
  from vall split have vld: "list_all (valid_block inflate) ld"
    and vall1: "list_all (valid_block inflate) ((done @ ld) @ rest')"
    by simp_all
  let ?p = "fst (decompress inflate (prev_blocks r1))"
  let ?cd = "fst (decompress inflate ?c1)"
  define m where "m = min n (k + ?av1)"
  have km: "k \<le> m" using kn by (simp add: m_def)
  have mk: "m - k \<le> ?av1" by (simp add: m_def)
  have dp: "d_decompressed_blocks ?p = data_of G"
    unfolding pv1 by (rule decompress_data [OF h v dc])
  have dcd: "d_decompressed_blocks ?cd = data_of ld"
    using nd1 by (intro decompress_blocks [OF h1 vld])
  have remp: "remaining_size (prev_blocks r1) = k" using rem by (simp add: pv1)
  have remc: "remaining_size ?c1 = ?av1"
    by (simp add: remaining_size_def rp1)
  have copy1: "device_copy (replicate m 0) 0 (data_of G) ?rp k = E @ replicate (m - k) 0"
    unfolding E' using km rp av by (intro device_copy_head) (simp_all add: k_def)
  have copy2: "device_copy (E @ replicate (m - k) 0) k (data_of ld) 0 (m - k)
               = E @ take (m - k) (data_of ld)"
    using device_copy_tail [of "m - k" "data_of ld" E] mk av1 by (simp add: lenE)
  have rpp: "read_pos (prev_blocks r1) = ?rp" by (simp add: pv1)
  have consp: "consume_bytes ?p k = Inr (?p\<lparr>read_pos := ?rp + k\<rparr>)"
    by (simp add: consume_bytes_def remp rpp)
  have consc: "consume_bytes ?cd (m - k) = Inr (?cd\<lparr>read_pos := m - k\<rparr>)"
    using mk by (simp add: consume_bytes_def remc rp1)
  let ?r' = "r1\<lparr>prev_blocks := ?p\<lparr>read_pos := ?rp + k\<rparr>, curr_blocks := ?cd\<lparr>read_pos := m - k\<rparr>\<rparr>"
  have sub: "size_sub m k = m - k" using km by simp
  have run: "get_next_chunk Little_endian inflate n r = Inr (E @ take (m - k) (data_of ld), ?r')"
    using n
    by (simp add: get_next_chunk_def Let_def nx remp remc m_def [symmetric] sub dp dcd
        copy1 copy2 consp consc rp1 rpp)
  have un: "unread r G rest = E @ take ?av1 (data_of ld) @ ?R'"
    unfolding unread_def E_def eq1 ..
  have lenX: "length (take ?av1 (data_of ld)) = ?av1" using av1 by simp
  have tt: "take (m - k) (take ?av1 (data_of ld)) = take (m - k) (data_of ld)"
    using mk by (simp add: min_def)
  have dt: "drop (m - k) (take ?av1 (data_of ld)) @ ?R' = unread ?r' ld rest'"
    by (simp add: unread_def ce1 le1)
  from kn have kn': "k \<le> n" by simp
  from en1 have en1: "n \<le> k + ?av1 \<or> ?R' = []" by auto
  have served: "take n (unread r G rest) = E @ take (m - k) (data_of ld)"
    unfolding un take_drop_two_parts(1) [OF lenE kn' lenX en1] m_def [symmetric] tt ..
  have left: "unread ?r' ld rest' = drop n (unread r G rest)"
    unfolding un take_drop_two_parts(2) [OF lenE kn' lenX en1] m_def [symmetric] dt ..
  have ra': "reader_at inflate (done @ ld) ld rest' ?r'"
    unfolding reader_at_def
    using vall1 vld cont cont1 gp gp1 eof1 h1 dcd mk av1 eo1 rp
      group_holds_starts_zero [OF h] split
    by (simp add: pv1 ce1 le1 k_def)
  from split run served left ra' show ?thesis by metis
qed

lemma concat_slices: "concat (slices ns L) = take (sum_list ns) L"
proof (induction ns arbitrary: L)
  case Nil
  show ?case by simp
next
  case (Cons n ns)
  have "take n L @ take (sum_list ns) (drop n L) = take (n + sum_list ns) L"
    by (simp add: take_add)
  with Cons show ?case by simp
qed

lemma get_next_chunk_serving:
  assumes "serving inflate bs r L"
  shows "\<exists>r'. get_next_chunk Little_endian inflate n r = Inr (take n L, r')
              \<and> serving inflate bs r' (drop n L)"
proof -
  from assms obtain "done" G rest where
    bs: "bs = done @ rest" and ra: "reader_at inflate done G rest r" and L: "L = unread r G rest"
    unfolding serving_def by blast
  show ?thesis
  proof (cases "n \<le> remaining_size (curr_blocks r)")
    case True
    from get_next_chunk_within [OF ra True] obtain r' where
      g: "get_next_chunk Little_endian inflate n r = Inr (take n (unread r G rest), r')"
      and ra': "reader_at inflate done G rest r'"
      and un: "unread r' G rest = drop n (unread r G rest)"
      by blast
    have "serving inflate bs r' (drop n L)"
      unfolding serving_def
      by (intro exI [of _ "done"] exI [of _ G] exI [of _ rest] conjI bs ra')
         (simp add: un L)
    with g L show ?thesis by blast
  next
    case False
    then have "remaining_size (curr_blocks r) < n" by simp
    from get_next_chunk_across [OF ra this] obtain r' ld rest' where
      sp: "rest = ld @ rest'"
      and g: "get_next_chunk Little_endian inflate n r = Inr (take n (unread r G rest), r')"
      and ra': "reader_at inflate (done @ ld) ld rest' r'"
      and un: "unread r' ld rest' = drop n (unread r G rest)"
      by blast
    have bs': "bs = (done @ ld) @ rest'" by (simp add: bs sp)
    have "serving inflate bs r' (drop n L)"
      unfolding serving_def
      by (intro exI [of _ "done @ ld"] exI [of _ ld] exI [of _ rest'] conjI bs' ra')
         (simp add: un L)
    with g L show ?thesis by blast
  qed
qed

lemma get_chunks_serving:
  assumes "serving inflate bs r L"
  shows "\<exists>r'. get_chunks Little_endian inflate ns r = Inr (slices ns L, r')
              \<and> serving inflate bs r' (drop (sum_list ns) L)"
  using assms
proof (induction ns arbitrary: r L)
  case Nil
  then show ?case by simp
next
  case (Cons n ns)
  from get_next_chunk_serving [OF Cons.prems, of n] obtain r1 where
    g: "get_next_chunk Little_endian inflate n r = Inr (take n L, r1)"
    and s1: "serving inflate bs r1 (drop n L)"
    by blast
  from Cons.IH [OF s1] obtain r' where
    "get_chunks Little_endian inflate ns r1 = Inr (slices ns (drop n L), r')"
    "serving inflate bs r' (drop (sum_list ns) (drop n L))"
    by blast
  with g show ?case by (simp add: add.commute)
qed

section \<open>Skipping bytes\<close>

lemma enc_blocks_empty: "enc_blocks bs = [] \<longleftrightarrow> bs = []"
  by (cases bs) (simp_all add: enc_block_nonempty)

lemma read_next_reader_at:
  assumes ra: "reader_at inflate done G rest r"
    and consumed: "read_pos (curr_blocks r) = available_decompressed_size (curr_blocks r)"
  shows "\<exists>r1 ld rest'. rest = ld @ rest'
           \<and> read_next_compressed_chunk Little_endian n r = Inr r1
           \<and> reader_at inflate (done @ ld) ld rest' r1
           \<and> unread r1 ld rest' = unread r G rest
           \<and> read_pos (curr_blocks r1) = 0
           \<and> compressed_end r1 = compressed_end r \<and> local_end r1 = local_end r
           \<and> (n \<le> available_decompressed_size (curr_blocks r1)
                \<or> range_data (compressed_pos r1) (compressed_end r) (local_end r) rest' = [])
           \<and> (ld = [] \<longrightarrow> n = 0 \<or> rest = [] \<or> compressed_end r1 < compressed_pos r1)"
proof -
  let ?c = "curr_blocks r"
  let ?r0 = "r\<lparr>curr_blocks := reset (prev_blocks r), prev_blocks := curr_blocks r\<rparr>"
  from ra have h: "group_holds ?c G"
    and vall: "list_all (valid_block inflate) (done @ rest)"
    and cont: "content (data_stream r) = enc_blocks (done @ rest)"
    and gp: "gpos (data_stream r) = length (enc_blocks done)"
    and sz: "starts_zero (prev_blocks r)"
    by (simp_all add: reader_at_def)
  from read_next_compressed_chunk_loaded [OF ra, of n] obtain r1 ld rest' where
    nx: "read_next_compressed_chunk Little_endian n r = Inr r1"
    and ld: "loaded n ?r0 [] rest r1 ld rest'"
    by blast
  let ?c1 = "curr_blocks r1"
  let ?av1 = "available_decompressed_size ?c1"
  let ?R = "range_data (compressed_pos r) (compressed_end r) (local_end r) rest"
  let ?R' = "range_data (compressed_pos r1) (compressed_end r) (local_end r) rest'"
  note L = loadedD [OF ld]
  from L(1) have split: "rest = ld @ rest'" .
  from L(2) have cont1: "content (data_stream r1) = content (data_stream r)" by simp
  from L(3) have gp1: "gpos (data_stream r1) = gpos (data_stream r) + length (enc_blocks ld)"
    by simp
  from L(4) have eof1: "eofbit (data_stream r1) \<longrightarrow> rest' = []" .
  from L(5) have cp1: "compressed_pos r1 = compressed_pos r + length (enc_blocks ld)" by simp
  from L(6) have ce1: "compressed_end r1 = compressed_end r" by simp
  from L(7) have le1: "local_end r1 = local_end r" by simp
  from L(8) have pv1: "prev_blocks r1 = ?c" by simp
  from L(9) have h1: "group_holds ?c1 ld" by simp
  from L(10) have rp1: "read_pos ?c1 = 0" by simp
  from L(11) have nd1: "\<not> is_decompressed ?c1" by simp
  from L(12) have av1: "?av1 \<le> length (data_of ld)" by simp
  from L(13) have eq1: "take ?av1 (data_of ld) @ ?R' = ?R" by simp
  from L(14) have en1: "n \<le> ?av1 \<or> ?R' = []" by simp
  from L(15) have eo1: "end_ok (compressed_pos r1) (compressed_end r) (local_end r) rest'"
    by simp
  have "decompressed_size (reset (prev_blocks r)) = 0"
    using group_holds_sizes(2) [OF group_holds_reset [OF sz]] by simp
  with L(16) cp1 ce1 have pr: "ld = [] \<longrightarrow> n = 0 \<or> rest = [] \<or> compressed_end r1 < compressed_pos r1"
    by auto
  from vall split have vld: "list_all (valid_block inflate) ld"
    and vall1: "list_all (valid_block inflate) ((done @ ld) @ rest')"
    by simp_all
  have ra1: "reader_at inflate (done @ ld) ld rest' r1"
    unfolding reader_at_def
    using vall1 vld cont cont1 gp gp1 eof1 h1 nd1 av1 eo1 consumed
      group_holds_starts_zero [OF h] split
    by (simp add: pv1 ce1 le1 rp1)
  have un: "unread r1 ld rest' = unread r G rest"
    unfolding unread_def using eq1 consumed by (simp add: rp1 ce1 le1)
  from split nx ra1 un rp1 ce1 le1 en1 pr show ?thesis by blast
qed

lemma skip_rest_reader_at:
  assumes ra: "reader_at inflate done G rest r"
    and en: "n \<le> remaining_size (curr_blocks r)
             \<or> range_data (compressed_pos r) (compressed_end r) (local_end r) rest = []"
  shows "\<exists>r'. skip_rest n r = Inr r' \<and> reader_at inflate done G rest r'
              \<and> unread r' G rest = drop n (unread r G rest)"
proof -
  let ?c = "curr_blocks r"
  let ?rp = "read_pos ?c"
  let ?av = "available_decompressed_size ?c"
  define m where "m = min n (remaining_size ?c)"
  let ?r' = "r\<lparr>curr_blocks := ?c\<lparr>read_pos := ?rp + m\<rparr>\<rparr>"
  from ra have rp: "?rp \<le> ?av" and av: "?av \<le> length (data_of G)"
    by (simp_all add: reader_at_def)
  have rem: "remaining_size ?c = ?av - ?rp" by (rule reader_at_remaining [OF ra])
  have m: "m \<le> ?av - ?rp" by (simp add: m_def rem)
  have run: "skip_rest n r = Inr ?r'"
    by (simp add: skip_rest_def consume_bytes_def m_def [symmetric]) (simp add: m_def)
  have ra': "reader_at inflate done G rest ?r'"
    using ra m rp by (simp add: reader_at_def)
  have len: "length (drop ?rp (take ?av (data_of G))) = ?av - ?rp"
    using av by simp
  have d: "drop (?rp + m) (take ?av (data_of G)) = drop m (drop ?rp (take ?av (data_of G)))"
    by (simp add: add.commute)
  define E where "E = drop ?rp (take ?av (data_of G))"
  define R where "R = range_data (compressed_pos r) (compressed_end r) (local_end r) rest"
  have lenE: "length E = ?av - ?rp" using len by (simp add: E_def)
  have un0: "unread ?r' G rest = drop m E @ R"
    by (simp add: unread_def d E_def R_def)
  have un1: "unread r G rest = E @ R"
    by (simp add: unread_def E_def R_def)
  have un: "unread ?r' G rest = drop n (unread r G rest)"
  proof (cases "n \<le> remaining_size ?c")
    case True
    then have "m = n" by (simp add: m_def)
    with True show ?thesis
      unfolding un0 un1 using lenE by (simp add: rem)
  next
    case False
    with en have R: "R = []" by (simp add: R_def)
    from False have "m = ?av - ?rp" by (simp add: m_def rem)
    with False show ?thesis
      unfolding un0 un1 R using lenE by (simp add: rem)
  qed
  from run ra' un show ?thesis by blast
qed


lemma reader_at_data_stream:
  assumes "reader_at inflate done G rest r"
    and "content s = content (data_stream r)" and "gpos s = gpos (data_stream r)"
    and "eofbit s \<longrightarrow> rest = []"
  shows "reader_at inflate done G rest (r\<lparr>data_stream := s\<rparr>)"
    and "unread (r\<lparr>data_stream := s\<rparr>) G rest = unread r G rest"
  using assms by (simp_all add: reader_at_def unread_def)

lemma skip_bytes_reader_at:
  assumes "reader_at inflate done G rest r"
  shows "\<exists>r' done' G' rest'. done @ rest = done' @ rest'
           \<and> skip_bytes Little_endian n r = Some (Inr r')
           \<and> reader_at inflate done' G' rest' r'
           \<and> unread r' G' rest' = drop n (unread r G rest)"
  using assms
proof (induction "length rest" arbitrary: n r "done" G rest rule: less_induct)
  case less
  note ra = less.prems
  let ?c = "curr_blocks r"
  let ?rp = "read_pos ?c"
  let ?av = "available_decompressed_size ?c"
  show ?case
  proof (cases "remaining_size ?c < n")
    case False
    then have run: "skip_bytes Little_endian n r = Some (skip_rest n r)"
      by (subst skip_bytes.simps) simp
    from False have "n \<le> remaining_size ?c" by simp
    from skip_rest_reader_at [OF ra disjI1 [OF this]] run show ?thesis by fastforce
  next
    case True
    define k where "k = remaining_size ?c"
    from ra have rp: "?rp \<le> ?av" and av: "?av \<le> length (data_of G)"
      by (simp_all add: reader_at_def)
    have k: "k = ?av - ?rp" by (simp add: k_def reader_at_remaining [OF ra])
    let ?rc = "r\<lparr>curr_blocks := ?c\<lparr>read_pos := ?rp + k\<rparr>\<rparr>"
    have cons: "consume_bytes ?c k = Inr (?c\<lparr>read_pos := ?rp + k\<rparr>)"
      by (simp add: consume_bytes_def k_def)
    have rac: "reader_at inflate done G rest ?rc"
      using ra rp by (simp add: reader_at_def k)
    have consumed: "read_pos (curr_blocks ?rc) = available_decompressed_size (curr_blocks ?rc)"
      using rp by (simp add: k)
    have len: "length (drop ?rp (take ?av (data_of G))) = k" using av by (simp add: k)
    from True have kn: "k < n" by (simp add: k_def)
    have unc: "unread ?rc G rest = drop k (unread r G rest)"
      unfolding unread_def using len rp by (simp add: k)
    have dn: "drop (n - k) (unread ?rc G rest) = drop n (unread r G rest)"
      unfolding unc using kn by simp
    from read_next_reader_at [OF rac consumed, of chunk_load_size] obtain r1 ld rest' where
      split: "rest = ld @ rest'"
      and nx: "read_next_compressed_chunk Little_endian chunk_load_size ?rc = Inr r1"
      and ra1: "reader_at inflate (done @ ld) ld rest' r1"
      and un1: "unread r1 ld rest' = unread ?rc G rest"
      and ce1: "compressed_end r1 = compressed_end r" and le1: "local_end r1 = local_end r"
      and pr: "ld = [] \<longrightarrow> chunk_load_size = 0 \<or> rest = []
               \<or> compressed_end r1 < compressed_pos r1"
      by auto
    have sub: "size_sub n (remaining_size ?c) = n - k" using kn by (simp add: k_def)
    have all: "done @ rest = (done @ ld) @ rest'" by (simp add: split)
    have step: "skip_bytes Little_endian n r =
        (if eofbit (data_stream r1) then Some (skip_rest (n - k) r1)
         else case stream_peek (data_stream r1) of
                Inl e \<Rightarrow> Some (Inl e)
              | Inr s1 \<Rightarrow>
                  if eofbit s1 \<or> compressed_end r1 < compressed_pos r1
                  then Some (skip_rest (n - k) (r1\<lparr>data_stream := s1\<rparr>))
                  else skip_bytes Little_endian (n - k) (r1\<lparr>data_stream := s1\<rparr>))"
      using True
      by (subst skip_bytes.simps, unfold sub) (simp add: k_def [symmetric] cons nx)
    from ra1 have gp1: "gpos (data_stream r1) = length (enc_blocks (done @ ld))"
      and cont1: "content (data_stream r1) = enc_blocks ((done @ ld) @ rest')"
      and eof1: "eofbit (data_stream r1) \<longrightarrow> rest' = []"
      by (simp_all add: reader_at_def)
    show ?thesis
    proof (cases "eofbit (data_stream r1)")
      case True
      with eof1 have "range_data (compressed_pos r1) (compressed_end r1) (local_end r1) rest' = []"
        by simp
      from skip_rest_reader_at [OF ra1 disjI2 [OF this], of "n - k"] obtain r' where
        "skip_rest (n - k) r1 = Inr r'" "reader_at inflate (done @ ld) ld rest' r'"
        "unread r' ld rest' = drop (n - k) (unread r1 ld rest')"
        by blast
      with step True all un1 dn show ?thesis by (metis (no_types))
    next
      case ne: False
      show ?thesis
      proof (cases "gpos (data_stream r1) < length (content (data_stream r1))")
        case False
        with gp1 cont1 have "enc_blocks rest' = []" by simp
        then have e: "rest' = []" by (simp add: enc_blocks_empty)
        let ?s1 = "(data_stream r1)\<lparr>eofbit := True\<rparr>"
        from False ne have pk: "stream_peek (data_stream r1) = Inr ?s1"
          by (simp add: stream_peek_def)
        have ra2: "reader_at inflate (done @ ld) ld rest' (r1\<lparr>data_stream := ?s1\<rparr>)"
          and un2: "unread (r1\<lparr>data_stream := ?s1\<rparr>) ld rest' = unread r1 ld rest'"
          using reader_at_data_stream [OF ra1, of ?s1] e by simp_all
        have "range_data (compressed_pos (r1\<lparr>data_stream := ?s1\<rparr>))
                (compressed_end (r1\<lparr>data_stream := ?s1\<rparr>))
                (local_end (r1\<lparr>data_stream := ?s1\<rparr>)) rest' = []"
          using e by simp
        from skip_rest_reader_at [OF ra2 disjI2 [OF this], of "n - k"] obtain r' where
          "skip_rest (n - k) (r1\<lparr>data_stream := ?s1\<rparr>) = Inr r'"
          "reader_at inflate (done @ ld) ld rest' r'"
          "unread r' ld rest' = drop (n - k) (unread r1 ld rest')"
          unfolding un2 by blast
        moreover from step ne pk
        have "skip_bytes Little_endian n r = Some (skip_rest (n - k) (r1\<lparr>data_stream := ?s1\<rparr>))"
          by simp
        ultimately show ?thesis using all un1 dn by (metis (no_types))
      next
        case more: True
        with ne have pk: "stream_peek (data_stream r1) = Inr (data_stream r1)"
          by (simp add: stream_peek_def)
        have same: "r1\<lparr>data_stream := data_stream r1\<rparr> = r1" by simp
        show ?thesis
        proof (cases "compressed_end r1 < compressed_pos r1")
          case True
          then have "range_data (compressed_pos r1) (compressed_end r1) (local_end r1) rest' = []"
            by (rule range_data_past)
          from skip_rest_reader_at [OF ra1 disjI2 [OF this], of "n - k"] obtain r' where
            "skip_rest (n - k) r1 = Inr r'" "reader_at inflate (done @ ld) ld rest' r'"
            "unread r' ld rest' = drop (n - k) (unread r1 ld rest')"
            by blast
          moreover from step ne pk True
          have "skip_bytes Little_endian n r = Some (skip_rest (n - k) r1)"
            by (simp add: same)
          ultimately show ?thesis using all un1 dn by (metis (no_types))
        next
          case False
          from more gp1 cont1 have "rest' \<noteq> []" by auto
          with pr False split have "ld \<noteq> []"
            by (auto simp: chunk_load_size_def)
          with split have "length rest' < length rest" by simp
          from less.hyps [OF this ra1, of "n - k"] obtain r' done' G' rest'' where
            "(done @ ld) @ rest' = done' @ rest''"
            "skip_bytes Little_endian (n - k) r1 = Some (Inr r')"
            "reader_at inflate done' G' rest'' r'"
            "unread r' G' rest'' = drop (n - k) (unread r1 ld rest')"
            by blast
          moreover from step ne pk False
          have "skip_bytes Little_endian n r = skip_bytes Little_endian (n - k) r1"
            by (simp add: same)
          ultimately show ?thesis using all un1 dn by (metis (no_types))
        qed
      qed
    qed
  qed
qed

section \<open>Constructing a reader over a valid stream\<close>

lemma new_reader_loaded:
  assumes v: "list_all (valid_block inflate) (done @ rest)"
    and c: "content s = enc_blocks (done @ rest)" and g: "gpos s = 0"
    and b: "unat (drop_bit 16 vb) = length (enc_blocks done)"
    and eo: "end_ok (length (enc_blocks done)) (unat (drop_bit 16 ve)) (unat (ve AND 0xFFFF)) rest"
  shows "\<exists>r1 ld rest'. rest = ld @ rest'
     \<and> new_bgzip_data_chunk_reader Little_endian s vb ve =
         (if 0 < unat (vb AND 0xFFFF) then
            (if 1 < length (h_compressed_offsets (curr_blocks r1))
                \<and> unat (vb AND 0xFFFF) < h_compressed_offsets (curr_blocks r1) ! 1
             then (case consume_bytes (curr_blocks r1) (unat (vb AND 0xFFFF)) of
                     Inl e \<Rightarrow> Inl e
                   | Inr g \<Rightarrow> Inr (r1\<lparr>curr_blocks := g\<rparr>))
             else Inl Local_offset_out_of_bounds)
          else Inr r1)
     \<and> reader_at inflate (done @ ld) ld rest' r1
     \<and> read_pos (curr_blocks r1) = 0
     \<and> unread r1 ld rest' =
         range_data (length (enc_blocks done)) (unat (drop_bit 16 ve)) (unat (ve AND 0xFFFF)) rest"
proof -
  let ?s1 = "s\<lparr>gpos := length (enc_blocks done), eofbit := False\<rparr>"
  let ?r0 = "\<lparr>data_stream = ?s1, prev_blocks = new_decompression_blocks,
              curr_blocks = new_decompression_blocks,
              local_end = unat (ve AND 0xFFFF), compressed_pos = unat (drop_bit 16 vb),
              compressed_end = unat (drop_bit 16 ve)\<rparr>"
  have "uint (drop_bit 16 vb) = int (length (enc_blocks done))"
    using b uint_nat [of "drop_bit 16 vb"] by simp
  then have sk: "stream_seekg_cur (uint (drop_bit 16 vb)) s = Inr ?s1"
    using g by (simp add: stream_seekg_cur_def)
  have gh: "group_holds new_decompression_blocks []"
    by (simp add: group_holds_def new_decompression_blocks_def)
  have nf: "read_pos new_decompression_blocks = 0"
    "available_decompressed_size new_decompression_blocks = 0"
    "\<not> is_decompressed new_decompression_blocks"
    by (simp_all add: new_decompression_blocks_def)
  have ra0: "reader_at inflate done [] rest ?r0"
    unfolding reader_at_def using v c eo gh group_holds_starts_zero [OF gh]
    by (simp add: nf b)
  have consumed: "read_pos (curr_blocks ?r0) = available_decompressed_size (curr_blocks ?r0)"
    by (simp add: nf)
  from read_next_reader_at [OF ra0 consumed, of chunk_load_size] obtain r1 ld rest' where
    split: "rest = ld @ rest'"
    and nx: "read_next_compressed_chunk Little_endian chunk_load_size ?r0 = Inr r1"
    and ra1: "reader_at inflate (done @ ld) ld rest' r1"
    and un1: "unread r1 ld rest' = unread ?r0 [] rest"
    and rp1: "read_pos (curr_blocks r1) = 0"
    by auto
  have un0: "unread ?r0 [] rest =
         range_data (length (enc_blocks done)) (unat (drop_bit 16 ve)) (unat (ve AND 0xFFFF)) rest"
    by (simp add: unread_def b)
  have run: "new_bgzip_data_chunk_reader Little_endian s vb ve =
         (if 0 < unat (vb AND 0xFFFF) then
            (if 1 < length (h_compressed_offsets (curr_blocks r1))
                \<and> unat (vb AND 0xFFFF) < h_compressed_offsets (curr_blocks r1) ! 1
             then (case consume_bytes (curr_blocks r1) (unat (vb AND 0xFFFF)) of
                     Inl e \<Rightarrow> Inl e
                   | Inr g \<Rightarrow> Inr (r1\<lparr>curr_blocks := g\<rparr>))
             else Inl Local_offset_out_of_bounds)
          else Inr r1)"
    unfolding new_bgzip_data_chunk_reader_def sk sum.case nx ..
  from split run ra1 rp1 un1 un0 show ?thesis by metis
qed

lemma new_reader_serving:
  assumes v: "list_all (valid_block inflate) (done @ rest)"
    and c: "content s = enc_blocks (done @ rest)" and g: "gpos s = 0"
    and b: "unat (drop_bit 16 vb) = length (enc_blocks done)"
    and eo: "end_ok (length (enc_blocks done)) (unat (drop_bit 16 ve)) (unat (ve AND 0xFFFF)) rest"
    and run: "new_bgzip_data_chunk_reader Little_endian s vb ve = Inr r"
  shows "serving inflate (done @ rest) r
           (drop (unat (vb AND 0xFFFF))
              (range_data (length (enc_blocks done)) (unat (drop_bit 16 ve))
                 (unat (ve AND 0xFFFF)) rest))"
proof -
  let ?lp = "unat (vb AND 0xFFFF)"
  let ?R = "range_data (length (enc_blocks done)) (unat (drop_bit 16 ve)) (unat (ve AND 0xFFFF)) rest"
  from new_reader_loaded [OF v c g b eo] obtain r1 ld rest' where
    split: "rest = ld @ rest'"
    and eq: "new_bgzip_data_chunk_reader Little_endian s vb ve =
         (if 0 < ?lp then
            (if 1 < length (h_compressed_offsets (curr_blocks r1))
                \<and> ?lp < h_compressed_offsets (curr_blocks r1) ! 1
             then (case consume_bytes (curr_blocks r1) ?lp of
                     Inl e \<Rightarrow> Inl e
                   | Inr g \<Rightarrow> Inr (r1\<lparr>curr_blocks := g\<rparr>))
             else Inl Local_offset_out_of_bounds)
          else Inr r1)"
    and ra1: "reader_at inflate (done @ ld) ld rest' r1"
    and rp1: "read_pos (curr_blocks r1) = 0"
    and un1: "unread r1 ld rest' = ?R"
    by blast
  have all: "done @ rest = (done @ ld) @ rest'" by (simp add: split)
  show ?thesis
  proof (cases "0 < ?lp")
    case False
    with eq run have "r = r1" by simp
    with False ra1 un1 all show ?thesis
      unfolding serving_def by (intro exI [of _ "done @ ld"] exI [of _ ld] exI [of _ rest']) simp
  next
    case True
    with eq run obtain g where
      cb: "consume_bytes (curr_blocks r1) ?lp = Inr g" and r: "r = r1\<lparr>curr_blocks := g\<rparr>"
      by (auto split: if_splits sum.splits)
    from consume_bytes_Inr [OF cb] have le: "?lp \<le> remaining_size (curr_blocks r1)"
      and g: "g = (curr_blocks r1)\<lparr>read_pos := ?lp\<rparr>"
      by (simp_all add: rp1)
    from le have le': "?lp \<le> available_decompressed_size (curr_blocks r1)"
      by (simp add: reader_at_remaining [OF ra1] rp1)
    from ra1 have av: "available_decompressed_size (curr_blocks r1) \<le> length (data_of ld)"
      by (simp add: reader_at_def)
    have ra: "reader_at inflate (done @ ld) ld rest' r"
      using ra1 le' by (simp add: reader_at_def r g)
    have "unread r ld rest' = drop ?lp (unread r1 ld rest')"
      unfolding unread_def using le' av by (simp add: r g rp1)
    with ra un1 all show ?thesis
      unfolding serving_def by (intro exI [of _ "done @ ld"] exI [of _ ld] exI [of _ rest']) simp
  qed
qed

section \<open>The bytes of a range and the sizes of the chunks\<close>

lemma demo_blocks_valid: "list_all (valid_block stored_inflate) demo_blocks"
  by (simp add: demo_blocks_def valid_block_def skipped_ok_def bsize_of_def xlen_of_def
      stored_inflate_def)

lemma demo_blocks_enc: "enc_blocks demo_blocks = demo_content"
  by (simp add: demo_blocks_def enc_block_def enc_header_def bsize_of_def xlen_of_def
      u16_bytes_def u32_bytes_def demo_content_def)

lemma demo_blocks_data: "data_of demo_blocks = [97, 98, 99, 100, 101]"
  by (simp add: demo_blocks_def)

lemma range_data_all:
  "list_all (valid_block inflate) bs \<Longrightarrow> cpos + length (enc_blocks bs) \<le> cend \<Longrightarrow>
   range_data cpos cend lend bs = data_of bs \<and> end_ok cpos cend lend bs"
proof (induction bs arbitrary: cpos)
  case Nil
  show ?case by simp
next
  case (Cons b bs)
  from Cons.prems have len: "length (enc_block b) = bsize_of b"
    by (simp add: valid_block_def length_enc_block)
  from Cons.prems len bsize_of_pos [of b] have lt: "cpos < cend"
    and nx: "cpos + bsize_of b + length (enc_blocks bs) \<le> cend"
    and v: "list_all (valid_block inflate) bs"
    by simp_all
  show ?case using lt Cons.IH [OF v nx] by simp
qed

lemma range_data_end:
  "list_all (valid_block inflate) mid \<Longrightarrow> cend = cpos + length (enc_blocks mid) \<Longrightarrow>
   range_data cpos cend lend (mid @ b # after) = data_of mid @ take lend (udata b)
   \<and> (end_ok cpos cend lend (mid @ b # after) \<longleftrightarrow> lend \<le> length (udata b))"
proof (induction mid arbitrary: cpos)
  case Nil
  then show ?case by simp
next
  case (Cons m mid)
  from Cons.prems have len: "length (enc_block m) = bsize_of m"
    by (simp add: valid_block_def length_enc_block)
  from Cons.prems len bsize_of_pos [of m] have lt: "cpos < cend"
    and nx: "cend = cpos + bsize_of m + length (enc_blocks mid)"
    and v: "list_all (valid_block inflate) mid"
    by simp_all
  show ?case using lt Cons.IH [OF v nx] by simp
qed

lemma length_slices: "sum_list ns \<le> length L \<Longrightarrow> map length (slices ns L) = ns"
  by (induction ns arbitrary: L) simp_all


lemma length_write_at [simp]: "length (write_at buf off bs) = length buf"
  by (simp add: write_at_def)

lemma length_device_copy [simp]: "length (device_copy dst doff src soff n) = length dst"
  by (simp add: device_copy_def)


section \<open>Reading a whole file\<close>

lemma new_reader_exists:
  assumes v: "list_all (valid_block inflate) (done @ rest)"
    and c: "content s = enc_blocks (done @ rest)" and g: "gpos s = 0"
    and b: "unat (drop_bit 16 vb) = length (enc_blocks done)"
    and eo: "end_ok (length (enc_blocks done)) (unat (drop_bit 16 ve)) (unat (ve AND 0xFFFF)) rest"
    and z: "unat (vb AND 0xFFFF) = 0"
  shows "\<exists>r. new_bgzip_data_chunk_reader Little_endian s vb ve = Inr r"
  using new_reader_loaded [OF v c g b eo] z by auto

lemma unbounded_range [simp]:
  "unat (drop_bit 16 (0 :: 64 word)) = 0"
  "unat ((0 :: 64 word) AND 0xFFFF) = 0"
  "unat (drop_bit 16 (0xFFFFFFFFFFFFFFFF :: 64 word)) = 281474976710655"
  "unat ((0xFFFFFFFFFFFFFFFF :: 64 word) AND 0xFFFF) = 65535"
  by simp_all

lemma whole_file_serving:
  assumes v: "list_all (valid_block inflate) blocks"
    and c: "content s = enc_blocks blocks" and g: "gpos s = 0"
    and small: "length (enc_blocks blocks) < 2 ^ 48"
  shows "\<exists>r. new_bgzip_data_chunk_reader Little_endian s 0 0xFFFFFFFFFFFFFFFF = Inr r
             \<and> serving inflate blocks r (data_of blocks)"
proof -
  from small have le: "0 + length (enc_blocks blocks) \<le> 281474976710655" by simp
  note rd = range_data_all [OF v le, of 65535]
  have v': "list_all (valid_block inflate) ([] @ blocks)" using v by simp
  have c': "content s = enc_blocks ([] @ blocks)" using c by simp
  have b: "unat (drop_bit 16 (0 :: 64 word)) = length (enc_blocks [])" by simp
  have eo: "end_ok (length (enc_blocks [])) (unat (drop_bit 16 (0xFFFFFFFFFFFFFFFF :: 64 word)))
              (unat ((0xFFFFFFFFFFFFFFFF :: 64 word) AND 0xFFFF)) blocks"
    using rd by simp
  from new_reader_exists [OF v' c' g b eo] obtain r where
    r: "new_bgzip_data_chunk_reader Little_endian s 0 0xFFFFFFFFFFFFFFFF = Inr r" by auto
  from new_reader_serving [OF v' c' g b eo r] rd
  have "serving inflate blocks r (data_of blocks)" by simp
  with r show ?thesis by blast
qed

lemma demo_reader_serving:
  "serving stored_inflate demo_blocks demo_reader [97, 98, 99, 100, 101]"
proof -
  have "content demo_stream = enc_blocks demo_blocks" "gpos demo_stream = 0"
    by (simp_all add: demo_stream_def demo_blocks_enc)
  moreover have "length (enc_blocks demo_blocks) < 2 ^ 48"
    by (simp add: demo_blocks_enc demo_content_def)
  ultimately show ?thesis
    using whole_file_serving [OF demo_blocks_valid, of demo_stream]
    by (simp add: demo_reader_new demo_blocks_data)
qed

text \<open>
  C1: let a stream hold the blocks of a valid BGZIP file, each of which the backend
  inflates to its data, and let the reader be created for the whole file on a
  little-endian host.  For every list of request sizes that add up to the length of the
  data, the calls of \<open>get_next_chunk\<close> with these sizes all return, every chunk has the
  requested size, and the chunks, one after the other, are the data of the blocks in
  file order.
\<close>

theorem bgzip_round_trip:
  assumes "list_all (valid_block inflate) blocks"
    and "content s = enc_blocks blocks" and "gpos s = 0"
    and "length (enc_blocks blocks) < 2 ^ 48"
    and "sum_list ns = length (data_of blocks)"
  shows "\<exists>r r'. new_bgzip_data_chunk_reader Little_endian s 0 0xFFFFFFFFFFFFFFFF = Inr r
           \<and> get_chunks Little_endian inflate ns r = Inr (slices ns (data_of blocks), r')
           \<and> map length (slices ns (data_of blocks)) = ns
           \<and> concat (slices ns (data_of blocks)) = data_of blocks"
proof -
  from whole_file_serving [OF assms(1-4)] obtain r where
    r: "new_bgzip_data_chunk_reader Little_endian s 0 0xFFFFFFFFFFFFFFFF = Inr r"
    and sv: "serving inflate blocks r (data_of blocks)" by blast
  from get_chunks_serving [OF sv, of ns] obtain r' where
    "get_chunks Little_endian inflate ns r = Inr (slices ns (data_of blocks), r')" by blast
  with r assms(5) show ?thesis
    by (simp add: length_slices concat_slices)
qed

text \<open>The sample file, read in two chunks of two and three bytes.\<close>

theorem bgzip_round_trip_witness:
  "list_all (valid_block stored_inflate) demo_blocks
   \<and> content demo_stream = enc_blocks demo_blocks \<and> gpos demo_stream = 0
   \<and> length (enc_blocks demo_blocks) < 2 ^ 48
   \<and> sum_list [2, 3] = length (data_of demo_blocks)
   \<and> (\<exists>r'. get_chunks Little_endian stored_inflate [2, 3] demo_reader
           = Inr ([[97, 98], [99, 100, 101]], r'))"
proof -
  have c: "content demo_stream = enc_blocks demo_blocks" and g: "gpos demo_stream = 0"
    by (simp_all add: demo_stream_def demo_blocks_enc)
  have small: "length (enc_blocks demo_blocks) < 2 ^ 48"
    by (simp add: demo_blocks_enc demo_content_def)
  have total: "sum_list [2, 3] = length (data_of demo_blocks)"
    by (simp add: demo_blocks_data)
  from bgzip_round_trip [OF demo_blocks_valid c g small total]
  have "\<exists>r'. get_chunks Little_endian stored_inflate [2, 3] demo_reader
           = Inr ([[97, 98], [99, 100, 101]], r')"
    unfolding demo_reader_new demo_blocks_data by (simp del: get_chunks.simps)
  with demo_blocks_valid c g small total show ?thesis by blast
qed

section \<open>The end of the range\<close>

lemma demo_range_reader_new:
  "new_bgzip_data_chunk_reader Little_endian demo_stream 0 2228225 = Inr demo_range_reader"
proof -
  have "\<not> isl (new_bgzip_data_chunk_reader Little_endian demo_stream 0 2228225)"
    by (simp add: eval_defs demo_stream_def demo_content_def)
  from Inr_projr [OF this] show ?thesis by (simp add: demo_range_reader_def)
qed

lemma demo_blocks_split:
  "demo_blocks = [] @ [demo_blocks ! 0] @ demo_blocks ! 1 # [demo_blocks ! 2]"
  by (simp add: demo_blocks_def)

lemma group_holds_new: "group_holds new_decompression_blocks []"
  by (simp add: group_holds_def new_decompression_blocks_def offsets_of_def)

text \<open>
  C4: when the loop of \<open>read_next_compressed_chunk\<close> reads a valid block with the
  cursor \<open>compressed_pos\<close> exactly at \<open>compressed_end\<close>, it returns after this one
  block: the group has one block more and the whole data of the block counts for
  decompression, but \<open>available_decompressed_size\<close> has grown by \<open>local_end\<close> only.  So a
  reader created over a valid stream with \<open>virtual_end\<close> in the block \<open>b\<close>, at most
  as far as the data of \<open>b\<close> goes, serves the data of the blocks \<open>mid\<close> from the start of
  its range to \<open>b\<close> and the first \<open>local_end\<close> bytes of \<open>b\<close>: the chunks of any requests,
  one after the other, are a prefix of these bytes, and nothing beyond them is returned.
\<close>

theorem virtual_end_bound:
  "(valid_block inflate b0 \<and> content (data_stream r0) = pre @ enc_block b0 @ post
      \<and> gpos (data_stream r0) = length pre \<and> \<not> eofbit (data_stream r0)
      \<and> group_holds (curr_blocks r0) G \<and> decompressed_size (curr_blocks r0) < n
      \<and> compressed_pos r0 = compressed_end r0
    \<longrightarrow> (\<exists>r1. read_compressed_blocks Little_endian n r0 = Inr r1
          \<and> available_decompressed_size (curr_blocks r1)
              = available_decompressed_size (curr_blocks r0) + local_end r0
          \<and> decompressed_size (curr_blocks r1)
              = decompressed_size (curr_blocks r0) + length (udata b0)
          \<and> num_blocks (curr_blocks r1) = num_blocks (curr_blocks r0) + 1
          \<and> gpos (data_stream r1) = gpos (data_stream r0) + bsize_of b0
          \<and> compressed_pos r1 = compressed_pos r0 + bsize_of b0))
   \<and> (list_all (valid_block inflate) (before @ mid @ b # after)
      \<and> content s = enc_blocks (before @ mid @ b # after) \<and> gpos s = 0
      \<and> unat (drop_bit 16 vb) = length (enc_blocks before)
      \<and> unat (drop_bit 16 ve) = length (enc_blocks (before @ mid))
      \<and> unat (ve AND 0xFFFF) \<le> length (udata b)
      \<and> new_bgzip_data_chunk_reader Little_endian s vb ve = Inr r
    \<longrightarrow> (\<exists>r'. get_chunks Little_endian inflate ns r
                = Inr (slices ns (drop (unat (vb AND 0xFFFF))
                                   (data_of mid @ take (unat (ve AND 0xFFFF)) (udata b))), r')
           \<and> concat (slices ns (drop (unat (vb AND 0xFFFF))
                                   (data_of mid @ take (unat (ve AND 0xFFFF)) (udata b))))
               = take (sum_list ns) (drop (unat (vb AND 0xFFFF))
                                   (data_of mid @ take (unat (ve AND 0xFFFF)) (udata b)))))"
proof (intro conjI impI; elim conjE)
  assume v: "valid_block inflate b0"
    and c: "content (data_stream r0) = pre @ enc_block b0 @ post"
    and g: "gpos (data_stream r0) = length pre" and e: "\<not> eofbit (data_stream r0)"
    and h: "group_holds (curr_blocks r0) G"
    and lt: "decompressed_size (curr_blocks r0) < n"
    and ce: "compressed_pos r0 = compressed_end r0"
  let ?h = "\<lparr>block_size = int (bsize_of b0), extra_length = int (xlen_of b0)\<rparr>"
  let ?g = "(curr_blocks r0)\<lparr>h_compressed_blocks := h_compressed_blocks (curr_blocks r0) @ cdata b0\<rparr>"
  from ce have le: "compressed_pos r0 \<le> compressed_end r0" by simp
  from read_compressed_blocks_block [OF v c g e h lt le] ce obtain f where
    fv: "unat (decompressed_size_f f) = length (udata b0)"
    and run: "read_compressed_blocks Little_endian n r0 =
        Inr (next_reader r0 ?h ?g f ((data_stream r0)\<lparr>gpos := length pre + bsize_of b0\<rparr>)
               (local_end r0))" by auto
  let ?r1 = "next_reader r0 ?h ?g f ((data_stream r0)\<lparr>gpos := length pre + bsize_of b0\<rparr>)
               (local_end r0)"
  from group_holds_add [OF h fv]
  have h1: "group_holds (curr_blocks ?r1) (G @ [b0])" by simp
  note s0 = group_holds_sizes [OF h] and s1 = group_holds_sizes [OF h1]
  have "available_decompressed_size (curr_blocks ?r1)
          = available_decompressed_size (curr_blocks r0) + local_end r0" by simp
  moreover have "decompressed_size (curr_blocks ?r1)
          = decompressed_size (curr_blocks r0) + length (udata b0)"
    unfolding s0 s1 by simp
  moreover have "num_blocks (curr_blocks ?r1) = num_blocks (curr_blocks r0) + 1"
    unfolding s0 s1 by simp
  moreover have "gpos (data_stream ?r1) = gpos (data_stream r0) + bsize_of b0"
    using g by simp
  moreover have "compressed_pos ?r1 = compressed_pos r0 + bsize_of b0" by simp
  ultimately show "\<exists>r1. read_compressed_blocks Little_endian n r0 = Inr r1
          \<and> available_decompressed_size (curr_blocks r1)
              = available_decompressed_size (curr_blocks r0) + local_end r0
          \<and> decompressed_size (curr_blocks r1)
              = decompressed_size (curr_blocks r0) + length (udata b0)
          \<and> num_blocks (curr_blocks r1) = num_blocks (curr_blocks r0) + 1
          \<and> gpos (data_stream r1) = gpos (data_stream r0) + bsize_of b0
          \<and> compressed_pos r1 = compressed_pos r0 + bsize_of b0"
    using run by blast
next
  let ?rest = "mid @ b # after"
  let ?L = "drop (unat (vb AND 0xFFFF)) (data_of mid @ take (unat (ve AND 0xFFFF)) (udata b))"
  assume v: "list_all (valid_block inflate) (before @ mid @ b # after)"
    and c: "content s = enc_blocks (before @ mid @ b # after)" and g: "gpos s = 0"
    and vb: "unat (drop_bit 16 vb) = length (enc_blocks before)"
    and ve: "unat (drop_bit 16 ve) = length (enc_blocks (before @ mid))"
    and le: "unat (ve AND 0xFFFF) \<le> length (udata b)"
    and run: "new_bgzip_data_chunk_reader Little_endian s vb ve = Inr r"
  from v have vm: "list_all (valid_block inflate) mid" by simp
  from ve have ce: "unat (drop_bit 16 ve) = length (enc_blocks before) + length (enc_blocks mid)"
    by simp
  note rd = range_data_end [OF vm ce, of "unat (ve AND 0xFFFF)" b after]
  from rd le have eo: "end_ok (length (enc_blocks before)) (unat (drop_bit 16 ve))
                         (unat (ve AND 0xFFFF)) ?rest" by simp
  from new_reader_serving [OF v c g vb eo run] rd
  have sv: "serving inflate (before @ ?rest) r ?L" by simp
  from get_chunks_serving [OF sv, of ns] obtain r' where
    "get_chunks Little_endian inflate ns r = Inr (slices ns ?L, r')" by blast
  then show "\<exists>r'. get_chunks Little_endian inflate ns r = Inr (slices ns ?L, r')
           \<and> concat (slices ns ?L) = take (sum_list ns) ?L"
    by (simp add: concat_slices)
qed

text \<open>
  The sample file: the loop at the start with the end of the range two bytes into the
  first block, and the reader of the range that ends one byte into the second block,
  asked for three and five bytes.
\<close>

theorem virtual_end_bound_witness:
  "(\<exists>r1. read_compressed_blocks Little_endian chunk_load_size demo_start = Inr r1
        \<and> available_decompressed_size (curr_blocks r1) = 2
        \<and> decompressed_size (curr_blocks r1) = 3
        \<and> num_blocks (curr_blocks r1) = 1
        \<and> gpos (data_stream r1) = 34
        \<and> compressed_pos r1 = 34)
   \<and> (\<exists>r'. get_chunks Little_endian stored_inflate [3, 5] demo_range_reader
               = Inr ([[97, 98, 99], [100]], r'))"
proof -
  note t = virtual_end_bound [where inflate = stored_inflate and ?b0.0 = "demo_blocks ! 0"
      and ?r0.0 = demo_start and pre = "[]" and post = "enc_blocks [demo_blocks ! 1, demo_blocks ! 2]"
      and G = "[]" and n = chunk_load_size and before = "[]" and mid = "[demo_blocks ! 0]"
      and b = "demo_blocks ! 1" and after = "[demo_blocks ! 2]" and s = demo_stream
      and vb = 0 and ve = 2228225 and r = demo_range_reader and ns = "[3, 5]"]
  have v: "list_all (valid_block stored_inflate) ([] @ [demo_blocks ! 0] @ demo_blocks ! 1 # [demo_blocks ! 2])"
    using demo_blocks_valid demo_blocks_split by simp
  then have v0: "valid_block stored_inflate (demo_blocks ! 0)" by simp
  have c: "content demo_stream = enc_blocks ([] @ [demo_blocks ! 0] @ demo_blocks ! 1 # [demo_blocks ! 2])"
    using demo_blocks_enc demo_blocks_split by (simp add: demo_stream_def)
  then have c0: "content (data_stream demo_start)
      = [] @ enc_block (demo_blocks ! 0) @ enc_blocks [demo_blocks ! 1, demo_blocks ! 2]"
    by (simp add: demo_start_def)
  have len: "length (enc_blocks ([] @ [demo_blocks ! 0])) = 34" "bsize_of (demo_blocks ! 0) = 34"
    "udata (demo_blocks ! 0) = [97, 98, 99]" "udata (demo_blocks ! 1) = [100, 101]"
    by (simp_all add: demo_blocks_def enc_block_def enc_header_def bsize_of_def xlen_of_def
        u16_bytes_def u32_bytes_def)
  have w: "unat (drop_bit 16 (2228225 :: 64 word)) = 34" "unat ((2228225 :: 64 word) AND 0xFFFF) = 1"
    by simp_all
  have st: "gpos (data_stream demo_start) = length ([] :: byte list)"
    "\<not> eofbit (data_stream demo_start)"
    "decompressed_size (curr_blocks demo_start) < chunk_load_size"
    "compressed_pos demo_start = compressed_end demo_start"
    "available_decompressed_size (curr_blocks demo_start) = 0"
    "decompressed_size (curr_blocks demo_start) = 0"
    "num_blocks (curr_blocks demo_start) = 0"
    "local_end demo_start = 2" "compressed_pos demo_start = 0"
    by (simp_all add: demo_start_def demo_stream_def decompressed_size_def
        num_blocks_def size_sub_def new_decompression_blocks_def chunk_load_size_def)
  have gh: "group_holds (curr_blocks demo_start) []"
    by (simp add: demo_start_def group_holds_new)
  from t [THEN conjunct1] v0 c0 st gh len
  have p1: "\<exists>r1. read_compressed_blocks Little_endian chunk_load_size demo_start = Inr r1
        \<and> available_decompressed_size (curr_blocks r1) = 2
        \<and> decompressed_size (curr_blocks r1) = 3
        \<and> num_blocks (curr_blocks r1) = 1
        \<and> gpos (data_stream r1) = 34
        \<and> compressed_pos r1 = 34"
    by (simp add: numeral_2_eq_2 numeral_3_eq_3)
  have g: "gpos demo_stream = 0" by (simp add: demo_stream_def)
  from t [THEN conjunct2] v c g w len demo_range_reader_new
  have p2: "\<exists>r'. get_chunks Little_endian stored_inflate [3, 5] demo_range_reader
               = Inr ([[97, 98, 99], [100]], r')"
    by (simp del: get_chunks.simps)
  from p1 p2 show ?thesis by (rule conjI)
qed

section \<open>The size of a chunk\<close>



section \<open>The errors of \<open>skip_bytes\<close>\<close>

lemma stream_read_error: "stream_read n s = Inl e \<Longrightarrow> e = Io_failure"
  by (simp add: stream_read_def split: if_splits)

lemma stream_peek_error: "stream_peek s = Inl e \<Longrightarrow> e = Io_failure"
  by (simp add: stream_peek_def split: if_splits)

lemma stream_seekg_cur_error: "stream_seekg_cur off s = Inl e \<Longrightarrow> e = Io_failure"
  by (simp add: stream_seekg_cur_def split: if_splits)

lemma read_extra_subfields_error:
  "read_extra_subfields host xlen off s = Inl e \<Longrightarrow> \<not> is_bounds_error e"
proof (induction host xlen off s rule: read_extra_subfields.induct)
  case (1 host xlen extra_offset s)
  from "1.prems" show ?case
    by (subst (asm) read_extra_subfields.simps)
       (auto split: if_splits sum.splits prod.splits
          dest: stream_read_error stream_seekg_cur_error "1.IH")
qed

lemma read_header_error: "read_header host s = Inl e \<Longrightarrow> \<not> is_bounds_error e"
  by (auto simp: read_header_def split: sum.splits prod.splits if_splits
      dest: stream_read_error read_extra_subfields_error)

lemma read_block_error: "read_block g h s = Inl e \<Longrightarrow> \<not> is_bounds_error e"
  by (auto simp: read_block_def split: sum.splits prod.splits if_splits dest: stream_read_error)

lemma read_footer_error: "read_footer host s = Inl e \<Longrightarrow> \<not> is_bounds_error e"
  by (auto simp: read_footer_def split: sum.splits prod.splits if_splits dest: stream_read_error)

lemma read_compressed_blocks_error:
  "read_compressed_blocks host n r = Inl e \<Longrightarrow> \<not> is_bounds_error e"
proof (induction host n r rule: read_compressed_blocks.induct)
  case (1 host requested_size r)
  from "1.prems" show ?case
    by (subst (asm) read_compressed_blocks.simps)
       (auto split: if_splits sum.splits prod.splits
          dest: stream_peek_error read_header_error read_block_error read_footer_error "1.IH")
qed

lemma read_next_compressed_chunk_error:
  "read_next_compressed_chunk host n r = Inl e \<Longrightarrow> \<not> is_bounds_error e"
  unfolding read_next_compressed_chunk_def by (rule read_compressed_blocks_error)

lemma consume_remaining: "consume_bytes g (remaining_size g) = Inr (g\<lparr>read_pos := read_pos g + remaining_size g\<rparr>)"
  by (simp add: consume_bytes_def)

lemma skip_rest_Inr: "\<exists>r'. skip_rest n r = Inr r'"
  by (simp add: skip_rest_def consume_bytes_def)

lemma skip_bytes_error:
  assumes run: "skip_bytes host n r = Some (Inl e)"
  shows "\<not> is_bounds_error e"
proof -
  have "\<forall>e'. (Inl e :: error + bgzip_data_chunk_reader) = Inl e' \<longrightarrow> \<not> is_bounds_error e'"
  proof (rule skip_bytes.raw_induct
      [where P = "\<lambda>host n r y. \<forall>e'. y = Inl e' \<longrightarrow> \<not> is_bounds_error e'", OF _ run], goal_cases)
    case (1 skip host n r y)
    show ?case
    proof (intro allI impI)
      fix e' assume y: "y = Inl e'"
      show "\<not> is_bounds_error e'"
      proof (cases "remaining_size (curr_blocks r) < n")
        case False
        with 1(2) y skip_rest_Inr [of n r] show ?thesis by auto
      next
        case True
        let ?g = "(curr_blocks r)\<lparr>read_pos := read_pos (curr_blocks r) + remaining_size (curr_blocks r)\<rparr>"
        let ?k = "size_sub n (remaining_size (curr_blocks r))"
        show ?thesis
        proof (cases "read_next_compressed_chunk host chunk_load_size (r\<lparr>curr_blocks := ?g\<rparr>)")
          case (Inl e1)
          with True 1(2) y have "e' = e1" by (simp add: consume_remaining)
          with Inl show ?thesis by (auto dest: read_next_compressed_chunk_error)
        next
          case (Inr r1)
          show ?thesis
          proof (cases "eofbit (data_stream r1)")
            case True
            with \<open>remaining_size (curr_blocks r) < n\<close> Inr 1(2) y skip_rest_Inr [of ?k r1]
            show ?thesis by (auto simp: consume_remaining)
          next
            case False
            show ?thesis
            proof (cases "stream_peek (data_stream r1)")
              case (Inl e1)
              with False \<open>remaining_size (curr_blocks r) < n\<close> Inr 1(2) y have "e' = e1"
                by (simp add: consume_remaining)
              with Inl show ?thesis by (auto dest: stream_peek_error)
            next
              case s1: (Inr s1)
              show ?thesis
              proof (cases "eofbit s1 \<or> compressed_pos r1 > compressed_end r1")
                case True
                with s1 False \<open>remaining_size (curr_blocks r) < n\<close> Inr 1(2) y
                  skip_rest_Inr [of ?k "r1\<lparr>data_stream := s1\<rparr>"]
                show ?thesis by (auto simp: consume_remaining)
              next
                case stop: False
                with s1 False \<open>remaining_size (curr_blocks r) < n\<close> Inr 1(2) y
                have "skip host ?k (r1\<lparr>data_stream := s1\<rparr>) = Some (Inl e')"
                  by (auto simp: consume_remaining)
                from 1(1) [OF this] show ?thesis by simp
              qed
            qed
          qed
        qed
      qed
    qed
  qed
  then show ?thesis by simp
qed

lemma read_compressed_blocks_prev:
  assumes "read_compressed_blocks host n r = Inr r'"
  shows "prev_blocks r' = prev_blocks r"
  using assms by (induction rule: read_compressed_blocks_induct) simp_all

lemma broken_reader_value:
  "broken_reader =
     \<lparr>data_stream = \<lparr>content = broken_content, gpos = 28, eofbit = False\<rparr>,
      prev_blocks = new_decompression_blocks,
      curr_blocks = new_decompression_blocks
        \<lparr>h_compressed_blocks := [3, 0],
         h_compressed_offsets := [0, 2],
         h_decompressed_offsets := [0, 16777216],
         max_decompressed_size := 16777216,
         available_decompressed_size := 16777216\<rparr>,
      local_end = 65535, compressed_pos = 28, compressed_end = 281474976710655\<rparr>"
  by (simp add: broken_reader_def eval_defs broken_stream_def broken_content_def)

lemma broken_reader_new:
  "new_bgzip_data_chunk_reader Little_endian broken_stream 0 0xFFFFFFFFFFFFFFFF = Inr broken_reader"
  unfolding broken_reader_value
  by (simp add: eval_defs broken_stream_def broken_content_def)

lemma broken_skip_bytes:
  "skip_bytes Little_endian 16777217 broken_reader = Some (Inl Malformed_header)"
  unfolding broken_reader_value
  by (subst skip_bytes.simps) (simp add: eval_defs broken_content_def skip_rest_def)

text \<open>
  C8 (as the claim states it, refuted): the reader of a stream that breaks off after a
  block of \<open>2 ^ 24\<close> bytes is created without an error; a skip of one byte more than the
  block holds loads the next blocks, and the format error "malformed BGZIP header" of
  \<open>read_header\<close> leaves \<open>skip_bytes\<close>.
\<close>

theorem skip_bytes_format_error_counterexample:
  "new_bgzip_data_chunk_reader Little_endian broken_stream 0 0xFFFFFFFFFFFFFFFF = Inr broken_reader
   \<and> skip_bytes Little_endian 16777217 broken_reader = Some (Inl Malformed_header)
   \<and> is_format_error Malformed_header"
  by (simp add: broken_reader_new broken_skip_bytes)

text \<open>
  C8 (amended): \<open>skip_bytes\<close> raises no bounds error, in any state of the reader: an
  error that leaves it comes from loading the next blocks.  For a reader over a valid
  stream with the bytes \<open>L\<close> of its range still unread, \<open>skip_bytes n\<close> returns without
  an error and leaves the bytes of \<open>L\<close> after the first \<open>n\<close> unread, none if \<open>L\<close> has at
  most \<open>n\<close> bytes: they are what the next call of \<open>get_next_chunk\<close> returns.
\<close>

theorem skip_bytes_errors:
  "(skip_bytes host n r0 = Some (Inl e) \<longrightarrow> \<not> is_bounds_error e)
   \<and> (serving inflate bs r L \<longrightarrow>
        (\<exists>r'. skip_bytes Little_endian n r = Some (Inr r')
           \<and> serving inflate bs r' (drop n L)
           \<and> (\<forall>m. \<exists>r''. get_next_chunk Little_endian inflate m r'
                          = Inr (take m (drop n L), r''))))"
proof (intro conjI impI)
  assume "skip_bytes host n r0 = Some (Inl e)"
  then show "\<not> is_bounds_error e" by (rule skip_bytes_error)
next
  assume sv0: "serving inflate bs r L"
  then obtain dn G rest where bs: "bs = dn @ rest"
    and ra: "reader_at inflate dn G rest r" and L: "L = unread r G rest"
    by (auto simp: serving_def)
  from skip_bytes_reader_at [OF ra, of n] obtain r' dn' G' rest' where
    eq: "dn @ rest = dn' @ rest'"
    and run: "skip_bytes Little_endian n r = Some (Inr r')"
    and ra': "reader_at inflate dn' G' rest' r'"
    and un: "unread r' G' rest' = drop n (unread r G rest)" by blast
  have sv: "serving inflate bs r' (drop n L)"
    unfolding serving_def
  proof (intro exI conjI)
    show "bs = dn' @ rest'" using bs eq by simp
    show "reader_at inflate dn' G' rest' r'" by fact
    show "drop n L = unread r' G' rest'" using un L by simp
  qed
  have "\<exists>r''. get_next_chunk Little_endian inflate m r' = Inr (take m (drop n L), r'')" for m
    using get_next_chunk_serving [OF sv, of m] by blast
  with run sv show "\<exists>r'. skip_bytes Little_endian n r = Some (Inr r')
           \<and> serving inflate bs r' (drop n L)
           \<and> (\<forall>m. \<exists>r''. get_next_chunk Little_endian inflate m r'
                          = Inr (take m (drop n L), r''))"
    by blast
qed

text \<open>
  The error of the stream that breaks off is no bounds error; on the sample file a skip
  of seven bytes returns and leaves nothing to read.
\<close>

theorem skip_bytes_errors_witness:
  "skip_bytes Little_endian 16777217 broken_reader = Some (Inl Malformed_header)
   \<and> \<not> is_bounds_error Malformed_header
   \<and> serving stored_inflate demo_blocks demo_reader [97, 98, 99, 100, 101]
   \<and> (\<exists>r'. skip_bytes Little_endian 7 demo_reader = Some (Inr r')
          \<and> (\<forall>m. \<exists>r''. get_next_chunk Little_endian stored_inflate m r' = Inr ([], r'')))"
proof -
  from skip_bytes_errors [where host = Little_endian and n = 16777217 and ?r0.0 = broken_reader
      and e = Malformed_header, THEN conjunct1, THEN mp, OF broken_skip_bytes]
  have nb: "\<not> is_bounds_error Malformed_header" .
  from skip_bytes_errors [where inflate = stored_inflate and n = 7 and bs = demo_blocks
      and r = demo_reader and L = "[97, 98, 99, 100, 101]",
      THEN conjunct2, THEN mp, OF demo_reader_serving]
  obtain r' where
    run: "skip_bytes Little_endian 7 demo_reader = Some (Inr r')"
    and later: "\<forall>m. \<exists>r''. get_next_chunk Little_endian stored_inflate m r'
                   = Inr (take m (drop 7 [97, 98, 99, 100, 101]), r'')"
    by (elim exE conjE)
  from later have "\<forall>m. \<exists>r''. get_next_chunk Little_endian stored_inflate m r' = Inr ([], r'')"
    by simp
  with run have "\<exists>r'. skip_bytes Little_endian 7 demo_reader = Some (Inr r')
          \<and> (\<forall>m. \<exists>r''. get_next_chunk Little_endian stored_inflate m r' = Inr ([], r''))"
    by (intro exI [of _ r']) simp
  with broken_skip_bytes nb demo_reader_serving show ?thesis by (intro conjI)
qed

end
